theory Spec2Isabelle
  imports Main "HOL-Library.Sublist"
begin

section \<open>Strings\<close>

text \<open>
  The program is \<^verbatim>\<open>status_tracker.py\<close>. A Python \<^verbatim>\<open>str\<close> is modelled as a
  \<^typ>\<open>string\<close>: a list of characters, where a \<^typ>\<open>char\<close> stands for the Unicode code point of
  the same number. The model therefore covers the texts whose code points are below 256
  (ASCII and Latin-1), and on these it follows Python exactly: the classes and mappings
  below are the restrictions of \<^verbatim>\<open>str.isspace\<close> and \<^verbatim>\<open>str.lower\<close> to that range.
\<close>

text \<open>
  \<^verbatim>\<open>str.isspace\<close> of one character, which is also the class \<^verbatim>\<open>\s\<close> of \<^verbatim>\<open>re\<close> on \<^verbatim>\<open>str\<close>
  patterns and the set \<^verbatim>\<open>str.strip()\<close> removes: TAB, LF, VT, FF, CR, the separators
  0x1C to 0x1F, the space, NEL (0x85) and the no-break space (0xA0).
\<close>

definition isspace :: "char \<Rightarrow> bool" where
  "isspace c =
     (let n = (of_char c :: nat)
      in (9 \<le> n \<and> n \<le> 13) \<or> (28 \<le> n \<and> n \<le> 32) \<or> n = 133 \<or> n = 160)"

text \<open>
  \<^verbatim>\<open>str.lower\<close> of one character: the letters A to Z, and the Latin-1 capitals 0xC0 to 0xDE
  but for the multiplication sign 0xD7, move up by 32; every other character stays.
\<close>

definition lower_char :: "char \<Rightarrow> char" where
  "lower_char c =
     (let n = (of_char c :: nat)
      in if (65 \<le> n \<and> n \<le> 90) \<or> (192 \<le> n \<and> n \<le> 222 \<and> n \<noteq> 215)
         then char_of (n + 32) else c)"

definition lower :: "string \<Rightarrow> string" where
  "lower s = map lower_char s"

text \<open>\<^verbatim>\<open>s.strip()\<close>: leading and trailing whitespace removed.\<close>

definition strip :: "string \<Rightarrow> string" where
  "strip s = dropWhile isspace (rev (dropWhile isspace (rev s)))"

text \<open>\<^verbatim>\<open>needle in haystack\<close> on strings: the needle occurs as a contiguous block.\<close>

fun str_contains :: "string \<Rightarrow> string \<Rightarrow> bool" where
  "str_contains needle [] = (needle = [])"
| "str_contains needle (c # cs) = (prefix needle (c # cs) \<or> str_contains needle cs)"

text \<open>\<^verbatim>\<open>a or b\<close> on strings: \<^verbatim>\<open>a\<close> when it is not empty, else \<^verbatim>\<open>b\<close>.\<close>

definition str_or :: "string \<Rightarrow> string \<Rightarrow> string" where
  "str_or a b = (if a \<noteq> [] then a else b)"

section \<open>The text normalizer: \<^verbatim>\<open>strip_html\<close>\<close>

text \<open>
  \<^verbatim>\<open>re.sub(r"<[^>]+>", " ", text)\<close>. The pattern matches at a \<^verbatim>\<open><\<close> when the next character
  exists and is not \<^verbatim>\<open>>\<close>, and a \<^verbatim>\<open>>\<close> follows later; the class \<^verbatim>\<open>[^>]\<close> cannot step over a
  \<^verbatim>\<open>>\<close>, so the match ends at the first one. \<open>match_tag\<close> takes the text after the \<^verbatim>\<open><\<close>
  and returns the text after the match. \<^verbatim>\<open>re.sub\<close> replaces the leftmost matches, none
  overlapping, and resumes after each.
\<close>

fun match_tag :: "string \<Rightarrow> string option" where
  "match_tag [] = None"
| "match_tag (d # ds) =
     (if d = CHR ''>'' then None
      else (case dropWhile (\<lambda>x. x \<noteq> CHR ''>'') ds of
              [] \<Rightarrow> None
            | _ # rest \<Rightarrow> Some rest))"

function sub_tags :: "string \<Rightarrow> string" where
  "sub_tags [] = []"
| "sub_tags (c # cs) =
     (if c = CHR ''<'' then
        (case match_tag cs of
           Some rest \<Rightarrow> CHR '' '' # sub_tags rest
         | None \<Rightarrow> c # sub_tags cs)
      else c # sub_tags cs)"
  by pat_completeness auto
termination
proof (relation "measure length")
  show "wf (measure length)" by simp
next
  fix c :: char and cs rest :: string
  assume "match_tag cs = Some rest"
  then have "length rest < length cs"
  proof (cases cs)
    case Nil
    assume "match_tag cs = Some rest"
    with Nil show ?thesis by simp
  next
    case (Cons d ds)
    assume m: "match_tag cs = Some rest"
    have "length (dropWhile (\<lambda>x. x \<noteq> CHR ''>'') ds) \<le> length ds"
      by (rule length_dropWhile_le)
    with m Cons show ?thesis
      by (auto split: if_splits list.splits)
  qed
  then show "(rest, c # cs) \<in> measure length" by simp
qed simp_all

text \<open>\<^verbatim>\<open>re.sub(r"&nbsp;", " ", text)\<close>: each occurrence of the six characters, left to right.\<close>

function sub_nbsp :: "string \<Rightarrow> string" where
  "sub_nbsp [] = []"
| "sub_nbsp (c # cs) =
     (if prefix ''&nbsp;'' (c # cs) then CHR '' '' # sub_nbsp (drop 5 cs)
      else c # sub_nbsp cs)"
  by pat_completeness auto
termination
  by (relation "measure length") auto

text \<open>\<^verbatim>\<open>re.sub(r"\s+", " ", text)\<close>: each maximal run of whitespace becomes one space.\<close>

function sub_spaces :: "string \<Rightarrow> string" where
  "sub_spaces [] = []"
| "sub_spaces (c # cs) =
     (if isspace c then CHR '' '' # sub_spaces (dropWhile isspace cs)
      else c # sub_spaces cs)"
  by pat_completeness auto
termination
  by (relation "measure length") (auto simp: less_Suc_eq_le length_dropWhile_le)

definition strip_html :: "string \<Rightarrow> string" where
  "strip_html text = strip (sub_spaces (sub_nbsp (sub_tags text)))"

section \<open>The product classifier: \<^verbatim>\<open>detect_product_and_message\<close>\<close>

definition PRODUCT_PATTERNS :: "(string \<times> string) list" where
  "PRODUCT_PATTERNS =
     [(''chat/completions'', ''OpenAI API - Chat Completions''),
      (''chat completions'', ''OpenAI API - Chat Completions''),
      (''responses api'', ''OpenAI API - Responses''),
      (''assistants api'', ''OpenAI API - Assistants''),
      (''realtime api'', ''OpenAI API - Realtime''),
      (''files api'', ''OpenAI API - Files''),
      (''file api'', ''OpenAI API - Files''),
      (''embeddings api'', ''OpenAI API - Embeddings''),
      (''embeddings'', ''OpenAI API - Embeddings''),
      (''fine-tuning api'', ''OpenAI API - Fine-tuning''),
      (''fine tuning api'', ''OpenAI API - Fine-tuning''),
      (''openai api'', ''OpenAI API'')]"

text \<open>
  The \<^verbatim>\<open>for needle, product_label in PRODUCT_PATTERNS\<close> loop with its early return: the
  label of the first pair whose needle occurs in the text, or nothing when the loop runs
  to its end.
\<close>

fun scan_patterns :: "(string \<times> string) list \<Rightarrow> string \<Rightarrow> string option" where
  "scan_patterns [] full_text = None"
| "scan_patterns ((needle, product_label) # ps) full_text =
     (if str_contains needle full_text then Some product_label
      else scan_patterns ps full_text)"

definition detect_product_and_message :: "string \<Rightarrow> string \<Rightarrow> string option \<times> string option" where
  "detect_product_and_message title body =
     (let full_text = lower (title @ '' '' @ body)
      in case scan_patterns PRODUCT_PATTERNS full_text of
           Some product_label \<Rightarrow> (Some product_label, Some (str_or (strip body) (strip title)))
         | None \<Rightarrow>
             if str_contains ''api'' full_text
             then (Some ''OpenAI API'', Some (str_or (strip body) (strip title)))
             else (None, None))"

section \<open>The feed and the network\<close>

text \<open>
  An \<^verbatim>\<open>atom:entry\<close> element, as the loop reads it: the five \<^verbatim>\<open>findtext\<close> results, each with
  the default \<^verbatim>\<open>""\<close> when the child is absent or empty.
\<close>

record entry =
  entry_id :: string
  updated :: string
  title :: string
  summary :: string
  content :: string

text \<open>
  The response body, taken by what \<^verbatim>\<open>ET.fromstring\<close> and \<^verbatim>\<open>findall("atom:entry")\<close> make of
  it: \<open>Malformed\<close> when the parser raises, otherwise the entries in document order (the
  feed lists the newest first).
\<close>

datatype xml_text = Malformed | Feed "entry list"

text \<open>
  The exceptions that reach the watcher: the cancellation of its task, the error of
  \<^verbatim>\<open>raise_for_status\<close> with the status, any other failure of the HTTP client, the
  parser's error, and the error of a \<^verbatim>\<open>print\<close> whose output cannot be written (a closed
  pipe, a character the terminal cannot encode). All but the first are subclasses of
  \<^verbatim>\<open>Exception\<close>.
\<close>

datatype exn = CancelledError | ClientResponseError nat | ClientError | ParseError | OSError

text \<open>
  A response: its status, the lookups of the two validator headers, and the outcome of
  \<^verbatim>\<open>await resp.text()\<close>, which may itself raise.
\<close>

record response =
  resp_status :: nat
  resp_etag :: "string option"
  resp_last_modified :: "string option"
  resp_text :: "exn + xml_text"

text \<open>
  \<^verbatim>\<open>session.get(url, headers=headers)\<close>: the network answers a URL and request headers
  with a response, or the call raises.
\<close>

type_synonym session = "string \<Rightarrow> (string \<times> string) list \<Rightarrow> exn + response"

text \<open>
  The standard output as \<^verbatim>\<open>_print_event(product, message)\<close> meets it, the three \<^verbatim>\<open>print\<close>
  calls taken as one: \<open>None\<close> when all three wrote their line, \<open>Some e\<close> when one of them
  raised \<open>e\<close> (the lines written before it are not recorded).
\<close>

type_synonym printer = "string \<Rightarrow> string \<Rightarrow> exn option"

text \<open>The output of the process, in order, with one mark for each entry found new.\<close>

datatype event =
    Accepted entry  \<comment> \<open>the entry passed the duplicate check: its key was added (line 114)\<close>
  | Printed string string  \<comment> \<open>\<^verbatim>\<open>_print_event(product, message)\<close>, the wall-clock time left out\<close>
  | Logged exn  \<comment> \<open>\<^verbatim>\<open>logging.exception\<close> in the loop's handler\<close>
  | Slept int  \<comment> \<open>\<^verbatim>\<open>asyncio.sleep\<close> ran to its end\<close>

section \<open>The watcher: \<^verbatim>\<open>AtomStatusWatcher\<close>\<close>

record watcher =
  feed_url :: string
  poll_interval :: int
  etag :: "string option"
  last_modified :: "string option"
  seen_keys :: "string set"

definition FEED_URL :: string where
  "FEED_URL = ''https://status.openai.com/history.atom''"

text \<open>\<^verbatim>\<open>__init__\<close>.\<close>

definition AtomStatusWatcher :: "string \<Rightarrow> int \<Rightarrow> watcher" where
  "AtomStatusWatcher url poll_interval_seconds =
     \<lparr>feed_url = url, poll_interval = poll_interval_seconds,
      etag = None, last_modified = None, seen_keys = {}\<rparr>"

text \<open>The conditional request headers: a validator is sent when it is set and not empty.\<close>

definition request_headers :: "watcher \<Rightarrow> (string \<times> string) list" where
  "request_headers st =
     (case etag st of
        Some v \<Rightarrow> if v \<noteq> [] then [(''If-None-Match'', v)] else []
      | None \<Rightarrow> [])
     @ (case last_modified st of
          Some v \<Rightarrow> if v \<noteq> [] then [(''If-Modified-Since'', v)] else []
        | None \<Rightarrow> [])"

text \<open>
  \<^verbatim>\<open>_fetch_if_changed\<close>. It returns the watcher as the call leaves it, and either the
  exception raised or the value returned: \<open>None\<close> on 304, else the body.
  \<^verbatim>\<open>raise_for_status\<close> raises on a status of 400 or more.
\<close>

definition fetch_if_changed :: "watcher \<Rightarrow> session \<Rightarrow> watcher \<times> (exn + xml_text option)" where
  "fetch_if_changed st session =
     (case session (feed_url st) (request_headers st) of
        Inl e \<Rightarrow> (st, Inl e)
      | Inr resp \<Rightarrow>
          if resp_status resp = 304 then (st, Inr None)
          else if 400 \<le> resp_status resp
            then (st, Inl (ClientResponseError (resp_status resp)))
          else
            let st1 = st\<lparr>etag := (case resp_etag resp of Some v \<Rightarrow> Some v | None \<Rightarrow> etag st)\<rparr>;
                st2 = st1\<lparr>last_modified :=
                        (case resp_last_modified resp of
                           Some v \<Rightarrow> Some v
                         | None \<Rightarrow> last_modified st1)\<rparr>
            in (case resp_text resp of
                  Inl e \<Rightarrow> (st2, Inl e)
                | Inr body \<Rightarrow> (st2, Inr (Some body))))"

text \<open>
  The identity key of an entry (lines 102 to 107): id, \<^verbatim>\<open>|\<close> and timestamp; when either is
  empty, the one that is not, or the empty string.
\<close>

definition entry_key :: "entry \<Rightarrow> string" where
  "entry_key e =
     (if entry_id e = [] \<or> updated e = []
      then str_or (entry_id e) (str_or (updated e) [])
      else entry_id e @ ''|'' @ updated e)"

text \<open>\<^verbatim>\<open>body_raw = summary or content or title or ""\<close>.\<close>

definition body_raw :: "entry \<Rightarrow> string" where
  "body_raw e = str_or (summary e) (str_or (content e) (str_or (title e) []))"

text \<open>
  \<^verbatim>\<open>if product and message: self._print_event(product, message)\<close>: the events written, or
  the exception of the print.
\<close>

definition report :: "printer \<Rightarrow> string option \<Rightarrow> string option \<Rightarrow> exn + event list" where
  "report stdout product message =
     (case product of
        None \<Rightarrow> Inr []
      | Some p \<Rightarrow>
          (case message of
             None \<Rightarrow> Inr []
           | Some m \<Rightarrow>
               if p \<noteq> [] \<and> m \<noteq> []
               then (case stdout p m of None \<Rightarrow> Inr [Printed p m] | Some x \<Rightarrow> Inl x)
               else Inr []))"

text \<open>
  What the loop body does with an entry after it added the key (lines 117 to 126): read
  the texts, normalize, classify and, through the guard, print.
\<close>

definition notify :: "printer \<Rightarrow> entry \<Rightarrow> exn + event list" where
  "notify stdout e =
     (case detect_product_and_message (title e) (strip_html (body_raw e)) of
        (product, message) \<Rightarrow> report stdout product message)"

text \<open>
  The \<^verbatim>\<open>for entry in entries\<close> loop of \<^verbatim>\<open>_check_once\<close>; both branches of the source test
  the key against \<^verbatim>\<open>seen_keys\<close> and \<^verbatim>\<open>continue\<close> on a hit. Nothing in the loop catches:
  an exception of the print ends the loop there, with the key of the entry already added
  and the later entries not looked at. The result is the exception, or the value of
  \<^verbatim>\<open>changed\<close> at the end.
\<close>

fun process_entries ::
  "printer \<Rightarrow> watcher \<Rightarrow> bool \<Rightarrow> entry list \<Rightarrow> watcher \<times> (exn + bool) \<times> event list" where
  "process_entries stdout st changed [] = (st, Inr changed, [])"
| "process_entries stdout st changed (e # es) =
     (if entry_key e \<in> seen_keys st then process_entries stdout st changed es
      else
        (case notify stdout e of
           Inl x \<Rightarrow> (st\<lparr>seen_keys := insert (entry_key e) (seen_keys st)\<rparr>, Inl x, [Accepted e])
         | Inr shown \<Rightarrow>
             (case process_entries stdout
                     (st\<lparr>seen_keys := insert (entry_key e) (seen_keys st)\<rparr>) True es of
                (st', r, evs) \<Rightarrow> (st', r, Accepted e # shown @ evs))))"

text \<open>\<^verbatim>\<open>_check_once\<close>: fetch, parse, reverse to oldest first, run the loop.\<close>

definition check_once ::
  "watcher \<Rightarrow> session \<Rightarrow> printer \<Rightarrow> watcher \<times> (exn + bool) \<times> event list" where
  "check_once st session stdout =
     (case fetch_if_changed st session of
        (st1, Inl e) \<Rightarrow> (st1, Inl e, [])
      | (st1, Inr None) \<Rightarrow> (st1, Inr False, [])
      | (st1, Inr (Some Malformed)) \<Rightarrow> (st1, Inl ParseError, [])
      | (st1, Inr (Some (Feed entries))) \<Rightarrow> process_entries stdout st1 False (rev entries))"

text \<open>
  One iteration of \<^verbatim>\<open>while True\<close> meets the network once, the standard output as often
  as it prints, and sleeps at most once: in the \<^verbatim>\<open>try\<close> block after a cycle that returned,
  or in the handler after one that failed. The sleep either runs to its end or is
  interrupted by the cancellation of the task.
\<close>

datatype sleep_outcome = Wakes | CancelledAsleep

record cycle =
  cyc_session :: session
  cyc_stdout :: printer
  cyc_sleep :: sleep_outcome

text \<open>
  \<^verbatim>\<open>run_forever\<close> over the iterations the environment supplies. The loop has no exit of
  its own: the result \<open>None\<close> says that it is still running after the last supplied
  iteration, \<open>Some e\<close> that the coroutine ended by raising \<open>e\<close>.
\<close>

fun run_forever :: "watcher \<Rightarrow> cycle list \<Rightarrow> watcher \<times> exn option \<times> event list" where
  "run_forever st [] = (st, None, [])"
| "run_forever st (c # cs) =
     (case check_once st (cyc_session c) (cyc_stdout c) of
        (st1, Inr changed, evs) \<Rightarrow>
          (case cyc_sleep c of
             CancelledAsleep \<Rightarrow> (st1, Some CancelledError, evs)
           | Wakes \<Rightarrow>
               (case run_forever st1 cs of
                  (st2, r, rest) \<Rightarrow> (st2, r, evs @ [Slept (poll_interval st1)] @ rest)))
      | (st1, Inl e, evs) \<Rightarrow>
          if e = CancelledError then (st1, Some CancelledError, evs)
          else
            (case cyc_sleep c of
               CancelledAsleep \<Rightarrow> (st1, Some CancelledError, evs @ [Logged e])
             | Wakes \<Rightarrow>
                 (case run_forever st1 cs of
                    (st2, r, rest) \<Rightarrow>
                      (st2, r, evs @ [Logged e, Slept (poll_interval st1)] @ rest))))"

section \<open>Reading the output\<close>

text \<open>
  The projections of an event list the claims speak about: the entries found new, the
  notifications printed, the sleeps and the logged errors, each in order. An entry counts
  as reported when a notification was printed for it, that is when \<open>Printed\<close> follows its
  \<open>Accepted\<close> mark.
\<close>

fun accepted :: "event list \<Rightarrow> entry list" where
  "accepted [] = []"
| "accepted (Accepted e # evs) = e # accepted evs"
| "accepted (Printed p m # evs) = accepted evs"
| "accepted (Logged x # evs) = accepted evs"
| "accepted (Slept n # evs) = accepted evs"


fun printed_next :: "event list \<Rightarrow> bool" where
  "printed_next (Printed p m # evs) = True"
| "printed_next evs = False"

fun reported :: "event list \<Rightarrow> entry list" where
  "reported [] = []"
| "reported (Accepted e # evs) = (if printed_next evs then e # reported evs else reported evs)"
| "reported (Printed p m # evs) = reported evs"
| "reported (Logged x # evs) = reported evs"
| "reported (Slept n # evs) = reported evs"

fun slept :: "event list \<Rightarrow> int list" where
  "slept [] = []"
| "slept (Slept n # evs) = n # slept evs"
| "slept (Accepted e # evs) = slept evs"
| "slept (Printed p m # evs) = slept evs"
| "slept (Logged x # evs) = slept evs"

fun logged :: "event list \<Rightarrow> exn list" where
  "logged [] = []"
| "logged (Logged x # evs) = x # logged evs"
| "logged (Accepted e # evs) = logged evs"
| "logged (Printed p m # evs) = logged evs"
| "logged (Slept n # evs) = logged evs"

text \<open>What the handler of \<^verbatim>\<open>run_forever\<close> logs for the outcome of a cycle.\<close>

definition handler_log :: "exn + bool \<Rightarrow> event list" where
  "handler_log r = (case r of Inl e \<Rightarrow> [Logged e] | Inr changed \<Rightarrow> [])"

text \<open>The task is cancelled during an iteration entered in state \<open>st\<close>: in the cycle or in the sleep.\<close>

definition cancelled_in :: "watcher \<Rightarrow> cycle \<Rightarrow> bool" where
  "cancelled_in st c =
     (fst (snd (check_once st (cyc_session c) (cyc_stdout c))) = Inl CancelledError
      \<or> cyc_sleep c = CancelledAsleep)"

section \<open>The deduplicator and the classifier in the words of the specification\<close>

text \<open>
  Two definitions that follow the specification, not the source, to compare the source
  with: \<open>filterNew\<close> is the contract of the entry deduplicator (for each entry, skip it
  when its key is in \<open>seenKeys\<close>, else add the key and keep the entry), and \<open>classify\<close>
  the contract of the product classifier (the first pair of the table whose needle is a
  case-insensitive substring of the lowercased title, separator and body; else the generic
  label when \<^verbatim>\<open>api\<close> occurs; the message is the trimmed body, else the trimmed title, else
  empty).
\<close>

fun filterNew :: "entry list \<Rightarrow> string set \<Rightarrow> entry list \<times> string set" where
  "filterNew [] seenKeys = ([], seenKeys)"
| "filterNew (e # es) seenKeys =
     (if entry_key e \<in> seenKeys then filterNew es seenKeys
      else (case filterNew es (insert (entry_key e) seenKeys) of
              (out, seenKeys') \<Rightarrow> (e # out, seenKeys')))"

definition ci_contains :: "string \<Rightarrow> string \<Rightarrow> bool" where
  "ci_contains needle haystack = str_contains (lower needle) (lower haystack)"

definition classify :: "string \<Rightarrow> string \<Rightarrow> (string \<times> string) option" where
  "classify ttl normalizedBody =
     (let haystack = lower (ttl @ '' '' @ normalizedBody);
          message = (if strip normalizedBody \<noteq> [] then strip normalizedBody
                     else if strip ttl \<noteq> [] then strip ttl else [])
      in case find (\<lambda>(needle, label). ci_contains needle haystack) PRODUCT_PATTERNS of
           Some (needle, label) \<Rightarrow> Some (label, message)
         | None \<Rightarrow>
             if ci_contains ''api'' haystack then Some (''OpenAI API'', message) else None)"

section \<open>Networks, outputs and feeds for the examples\<close>

text \<open>
  Sessions that answer every request alike, a standard output that takes every
  notification and one that refuses every notification, and the concrete entries,
  responses and iterations on which the theorems below are evaluated.
\<close>

definition replying :: "response \<Rightarrow> session" where
  "replying resp url headers = Inr resp"

definition raising :: "exn \<Rightarrow> session" where
  "raising e url headers = Inl e"

definition terminal :: printer where
  "terminal product message = None"

definition closed_pipe :: printer where
  "closed_pipe product message = Some OSError"

definition ok_response :: "entry list \<Rightarrow> response" where
  "ok_response es =
     \<lparr>resp_status = 200, resp_etag = None, resp_last_modified = None, resp_text = Inr (Feed es)\<rparr>"

definition blank1 :: entry where
  "blank1 = \<lparr>entry_id = [], updated = [], title = ''API outage'', summary = ''first'', content = []\<rparr>"

definition blank2 :: entry where
  "blank2 = \<lparr>entry_id = [], updated = [], title = ''API outage'', summary = ''second'', content = []\<rparr>"

definition blank_cycles :: "cycle list" where
  "blank_cycles =
     [\<lparr>cyc_session = replying (ok_response [blank2, blank1]), cyc_stdout = terminal,
       cyc_sleep = Wakes\<rparr>,
      \<lparr>cyc_session = replying (ok_response [blank2]), cyc_stdout = terminal,
       cyc_sleep = Wakes\<rparr>]"

definition entryA :: entry where
  "entryA = \<lparr>entry_id = ''A'', updated = ''t1'', title = ''Files API errors'',
              summary = ''investigating'', content = []\<rparr>"

definition entryB :: entry where
  "entryB = \<lparr>entry_id = ''B'', updated = ''t2'', title = ''Login issue'',
              summary = ''resolved'', content = []\<rparr>"

definition entryC :: entry where
  "entryC = \<lparr>entry_id = ''C'', updated = ''t3'', title = ''Embeddings latency'',
              summary = ''monitoring'', content = []\<rparr>"

definition incident_v1 :: entry where
  "incident_v1 = \<lparr>entry_id = ''tag:42'', updated = ''2024-01-01T10:00'',
     title = ''Embeddings API issue'', summary = ''investigating'', content = []\<rparr>"

definition incident_v2 :: entry where
  "incident_v2 = \<lparr>entry_id = ''tag:42'', updated = ''2024-01-01T11:00'',
     title = ''Embeddings API issue'', summary = ''resolved'', content = []\<rparr>"

definition quiet_entry :: entry where
  "quiet_entry = \<lparr>entry_id = ''1'', updated = ''t1'', title = ''Unrelated outage'',
     summary = ''details'', content = []\<rparr>"


definition broken_response :: response where
  "broken_response =
     \<lparr>resp_status = 200, resp_etag = Some ''v2'', resp_last_modified = None,
      resp_text = Inr Malformed\<rparr>"

definition fresh_response :: response where
  "fresh_response =
     \<lparr>resp_status = 200, resp_etag = Some ''W/\"abc\"'',
      resp_last_modified = Some ''Tue, 02 Jan 2024 00:00:00 GMT'',
      resp_text = Inr (Feed [])\<rparr>"

definition not_modified_response :: response where
  "not_modified_response =
     \<lparr>resp_status = 304, resp_etag = Some ''W/\"new\"'', resp_last_modified = None,
      resp_text = Inr (Feed [quiet_entry])\<rparr>"

definition server_error_response :: response where
  "server_error_response =
     \<lparr>resp_status = 500, resp_etag = None, resp_last_modified = None, resp_text = Inr Malformed\<rparr>"

definition polled_watcher :: watcher where
  "polled_watcher =
     \<lparr>feed_url = FEED_URL, poll_interval = 60, etag = Some ''W/\"abc\"'',
      last_modified = Some ''Tue, 02 Jan 2024 00:00:00 GMT'', seen_keys = {''1|t1''}\<rparr>"

definition stuck_output_cycle :: cycle where
  "stuck_output_cycle =
     \<lparr>cyc_session = replying (ok_response [entryB, entryA]), cyc_stdout = closed_pipe,
      cyc_sleep = Wakes\<rparr>"

definition failing_cycles :: "cycle list" where
  "failing_cycles =
     [\<lparr>cyc_session = replying server_error_response, cyc_stdout = terminal, cyc_sleep = Wakes\<rparr>,
      \<lparr>cyc_session = replying broken_response, cyc_stdout = terminal, cyc_sleep = Wakes\<rparr>,
      \<lparr>cyc_session = raising ClientError, cyc_stdout = terminal, cyc_sleep = Wakes\<rparr>,
      stuck_output_cycle,
      \<lparr>cyc_session = replying (ok_response [quiet_entry]), cyc_stdout = terminal,
       cyc_sleep = Wakes\<rparr>]"

definition cancelled_cycle :: cycle where
  "cancelled_cycle =
     \<lparr>cyc_session = raising CancelledError, cyc_stdout = terminal, cyc_sleep = Wakes\<rparr>"

definition interrupted_cycle :: cycle where
  "interrupted_cycle =
     \<lparr>cyc_session = raising ClientError, cyc_stdout = terminal, cyc_sleep = CancelledAsleep\<rparr>"

section \<open>Texts that a substitution leaves alone\<close>

text \<open>
  Three properties of a text, each saying that one substitution of \<^verbatim>\<open>strip_html\<close> finds
  nothing to replace. \<open>blocked cs\<close>: the tag pattern does not match at a \<^verbatim>\<open><\<close> followed
  by \<open>cs\<close>.
\<close>

fun blocked :: "string \<Rightarrow> bool" where
  "blocked [] = True"
| "blocked (d # ds) = (d = CHR ''>'' \<or> CHR ''>'' \<notin> set ds)"

fun no_tag :: "string \<Rightarrow> bool" where
  "no_tag [] = True"
| "no_tag (c # cs) = ((c \<noteq> CHR ''<'' \<or> blocked cs) \<and> no_tag cs)"

fun nbsp_free :: "string \<Rightarrow> bool" where
  "nbsp_free [] = True"
| "nbsp_free (c # cs) = (\<not> prefix ''&nbsp;'' (c # cs) \<and> nbsp_free cs)"

fun single_spaced :: "string \<Rightarrow> bool" where
  "single_spaced [] = True"
| "single_spaced (c # cs) =
     ((if isspace c then c = CHR '' '' \<and> (case cs of [] \<Rightarrow> True | d # _ \<Rightarrow> \<not> isspace d) else True)
      \<and> single_spaced cs)"

section \<open>The normalizer is idempotent\<close>

lemma match_tag_None: "match_tag cs = None \<longleftrightarrow> blocked cs"
proof (cases cs)
  case Nil
  then show ?thesis by simp
next
  case (Cons d ds)
  show ?thesis
  proof (cases "dropWhile (\<lambda>x. x \<noteq> CHR ''>'') ds")
    case Nil
    then have "CHR ''>'' \<notin> set ds"
      by (auto simp: dropWhile_eq_Nil_conv)
    with Nil Cons show ?thesis by (simp del: dropWhile_eq_Nil_conv)
  next
    case (Cons e es)
    then have "dropWhile (\<lambda>x. x \<noteq> CHR ''>'') ds \<noteq> []" by simp
    then have "CHR ''>'' \<in> set ds"
      by (auto simp: dropWhile_eq_Nil_conv)
    with Cons \<open>cs = d # ds\<close> show ?thesis by simp
  qed
qed

lemma sub_tags_fix: "no_tag s \<Longrightarrow> sub_tags s = s"
proof (induction s)
  case Nil
  then show ?case by simp
next
  case (Cons c cs)
  show ?case
  proof (cases "c = CHR ''<''")
    case True
    with Cons.prems have "match_tag cs = None"
      by (simp add: match_tag_None)
    with Cons show ?thesis by simp
  next
    case False
    with Cons show ?thesis by simp
  qed
qed

lemma match_tag_set: "match_tag cs = Some rest \<Longrightarrow> set rest \<subseteq> set cs"
proof (cases cs)
  case Nil
  then show "match_tag cs = Some rest \<Longrightarrow> set rest \<subseteq> set cs" by simp
next
  case (Cons d ds)
  assume m: "match_tag cs = Some rest"
  have "set (dropWhile (\<lambda>x. x \<noteq> CHR ''>'') ds) \<subseteq> set ds"
    by (rule set_dropWhileD [THEN subsetI]) 
  with m Cons show "set rest \<subseteq> set cs"
    by (auto split: if_splits list.splits)
qed

lemma set_sub_tags: "set (sub_tags s) \<subseteq> insert (CHR '' '') (set s)"
proof (induction s rule: sub_tags.induct)
  case 1
  then show ?case by simp
next
  case (2 c cs)
  show ?case
  proof (cases "c = CHR ''<''")
    case False
    with 2 show ?thesis by auto
  next
    case True
    show ?thesis
    proof (cases "match_tag cs")
      case None
      with 2 True show ?thesis by auto
    next
      case (Some rest)
      with 2 True have "set (sub_tags rest) \<subseteq> insert (CHR '' '') (set rest)"
        by simp
      moreover from Some have "set rest \<subseteq> set cs"
        by (rule match_tag_set)
      ultimately show ?thesis
        using True Some by auto
    qed
  qed
qed

lemma blocked_sub_tags: "blocked cs \<Longrightarrow> blocked (sub_tags cs)"
proof (cases cs)
  case Nil
  then show ?thesis by simp
next
  case (Cons d ds)
  assume b: "blocked cs"
  show ?thesis
  proof (cases "d = CHR ''>''")
    case True
    with Cons show ?thesis by simp
  next
    case False
    with b Cons have "CHR ''>'' \<notin> set cs" by simp
    with set_sub_tags [of cs] have "CHR ''>'' \<notin> set (sub_tags cs)" by auto
    then show ?thesis by (cases "sub_tags cs") auto
  qed
qed

lemma no_tag_sub_tags: "no_tag (sub_tags s)"
proof (induction s rule: sub_tags.induct)
  case 1
  then show ?case by simp
next
  case (2 c cs)
  show ?case
  proof (cases "c = CHR ''<''")
    case False
    with 2 show ?thesis by simp
  next
    case True
    show ?thesis
    proof (cases "match_tag cs")
      case None
      then have "blocked (sub_tags cs)"
        by (simp add: match_tag_None blocked_sub_tags)
      with 2 True None show ?thesis by simp
    next
      case (Some rest)
      with 2 True show ?thesis by simp
    qed
  qed
qed

lemma set_sub_nbsp: "set (sub_nbsp s) \<subseteq> insert (CHR '' '') (set s)"
proof (induction s rule: sub_nbsp.induct)
  case 1
  then show ?case by simp
next
  case (2 c cs)
  show ?case
  proof (cases "prefix ''&nbsp;'' (c # cs)")
    case True
    with 2 have "set (sub_nbsp (drop 5 cs)) \<subseteq> insert (CHR '' '') (set (drop 5 cs))"
      by simp
    moreover have "set (drop 5 cs) \<subseteq> set cs"
      by (rule set_drop_subset)
    ultimately show ?thesis using True by auto
  next
    case False
    with 2 show ?thesis by auto
  qed
qed

lemma set_sub_spaces: "set (sub_spaces s) \<subseteq> insert (CHR '' '') (set s)"
proof (induction s rule: sub_spaces.induct)
  case 1
  then show ?case by simp
next
  case (2 c cs)
  show ?case
  proof (cases "isspace c")
    case True
    with 2 have "set (sub_spaces (dropWhile isspace cs))
        \<subseteq> insert (CHR '' '') (set (dropWhile isspace cs))"
      by simp
    moreover have "set (dropWhile isspace cs) \<subseteq> set cs"
      by (auto dest: set_dropWhileD)
    ultimately show ?thesis using True by auto
  next
    case False
    with 2 show ?thesis by auto
  qed
qed

lemma not_isspace_gt [simp]: "\<not> isspace (CHR ''>'')"
  by (simp add: isspace_def)

lemma not_isspace_lt [simp]: "\<not> isspace (CHR ''<'')"
  by (simp add: isspace_def)


lemma blocked_sub_nbsp: "blocked cs \<Longrightarrow> blocked (sub_nbsp cs)"
proof (cases cs)
  case Nil
  then show ?thesis by simp
next
  case (Cons d ds)
  assume b: "blocked cs"
  show ?thesis
  proof (cases "d = CHR ''>''")
    case True
    with Cons show ?thesis by simp
  next
    case False
    with b Cons have "CHR ''>'' \<notin> set cs" by simp
    with set_sub_nbsp [of cs] have "CHR ''>'' \<notin> set (sub_nbsp cs)" by auto
    then show ?thesis by (cases "sub_nbsp cs") auto
  qed
qed

lemma blocked_sub_spaces: "blocked cs \<Longrightarrow> blocked (sub_spaces cs)"
proof (cases cs)
  case Nil
  then show ?thesis by simp
next
  case (Cons d ds)
  assume b: "blocked cs"
  show ?thesis
  proof (cases "d = CHR ''>''")
    case True
    with Cons show ?thesis by simp
  next
    case False
    with b Cons have "CHR ''>'' \<notin> set cs" by simp
    with set_sub_spaces [of cs] have "CHR ''>'' \<notin> set (sub_spaces cs)" by auto
    then show ?thesis by (cases "sub_spaces cs") auto
  qed
qed

lemma no_tag_append: "no_tag (xs @ ys) \<Longrightarrow> no_tag xs \<and> no_tag ys"
proof (induction xs)
  case Nil
  then show ?case by simp
next
  case (Cons c cs)
  have "blocked (cs @ ys) \<Longrightarrow> blocked cs"
    by (cases cs) auto
  with Cons show ?case by auto
qed

lemma no_tag_suffix: "no_tag s \<Longrightarrow> suffix t s \<Longrightarrow> no_tag t"
  by (auto simp: suffix_def dest: no_tag_append)

lemma no_tag_sub_nbsp: "no_tag s \<Longrightarrow> no_tag (sub_nbsp s)"
proof (induction s rule: sub_nbsp.induct)
  case 1
  then show ?case by simp
next
  case (2 c cs)
  show ?case
  proof (cases "prefix ''&nbsp;'' (c # cs)")
    case True
    from "2.prems" have "no_tag (drop 5 cs)"
      by (auto intro: no_tag_suffix [OF _ suffix_drop])
    with 2 True show ?thesis by simp
  next
    case False
    with 2 show ?thesis by (auto intro: blocked_sub_nbsp)
  qed
qed

lemma no_tag_sub_spaces: "no_tag s \<Longrightarrow> no_tag (sub_spaces s)"
proof (induction s rule: sub_spaces.induct)
  case 1
  then show ?case by simp
next
  case (2 c cs)
  show ?case
  proof (cases "isspace c")
    case True
    from "2.prems" have "no_tag (dropWhile isspace cs)"
      by (auto intro: no_tag_suffix [OF _ suffix_dropWhile])
    with 2 True show ?thesis by simp
  next
    case False
    with 2 show ?thesis by (auto intro: blocked_sub_spaces)
  qed
qed

lemma strip_decomp: "\<exists>p q. s = p @ strip s @ q"
proof -
  let ?u = "rev (dropWhile isspace (rev s))"
  have "?u @ rev (takeWhile isspace (rev s))
      = rev (takeWhile isspace (rev s) @ dropWhile isspace (rev s))"
    by (simp only: rev_append)
  also have "\<dots> = s"
    by (simp only: takeWhile_dropWhile_id rev_rev_ident)
  finally have 1: "s = ?u @ rev (takeWhile isspace (rev s))"
    by (rule sym)
  have 2: "?u = takeWhile isspace ?u @ strip s"
    by (simp add: strip_def)
  from 1 2 have "s = takeWhile isspace ?u @ strip s @ rev (takeWhile isspace (rev s))"
    by (metis append.assoc)
  then show ?thesis by blast
qed

lemma no_tag_strip: "no_tag s \<Longrightarrow> no_tag (strip s)"
proof -
  assume n: "no_tag s"
  obtain p q where "s = p @ strip s @ q"
    using strip_decomp by blast
  with n have "no_tag (p @ strip s @ q)" by simp
  then show ?thesis
    by (blast dest: no_tag_append)
qed

lemma sub_nbsp_fix: "nbsp_free s \<Longrightarrow> sub_nbsp s = s"
  by (induction s) auto

lemma prefix_sub_nbsp:
  "CHR '' '' \<notin> set p \<Longrightarrow> prefix p (sub_nbsp s) \<Longrightarrow> prefix p s"
proof (induction p arbitrary: s)
  case Nil
  then show ?case by simp
next
  case (Cons a p)
  show ?case
  proof (cases s)
    case Nil
    with Cons.prems show ?thesis by simp
  next
    case (Cons c cs)
    show ?thesis
    proof (cases "prefix ''&nbsp;'' (c # cs)")
      case True
      with Cons Cons.prems show ?thesis by simp
    next
      case False
      with Cons Cons.prems have "a = c" and "prefix p (sub_nbsp cs)" by auto
      with Cons.IH [of cs] Cons.prems(1) Cons show ?thesis by simp
    qed
  qed
qed

lemma prefix_sub_spaces:
  "CHR '' '' \<notin> set p \<Longrightarrow> prefix p (sub_spaces s) \<Longrightarrow> prefix p s"
proof (induction p arbitrary: s)
  case Nil
  then show ?case by simp
next
  case (Cons a p)
  show ?case
  proof (cases s)
    case Nil
    with Cons.prems show ?thesis by simp
  next
    case (Cons c cs)
    show ?thesis
    proof (cases "isspace c")
      case True
      with Cons Cons.prems show ?thesis by simp
    next
      case False
      with Cons Cons.prems have "a = c" and "prefix p (sub_spaces cs)" by simp_all
      with Cons.IH [of cs] Cons.prems(1) Cons show ?thesis by simp
    qed
  qed
qed

lemma nbsp_free_sub_nbsp: "nbsp_free (sub_nbsp s)"
proof (induction s rule: sub_nbsp.induct)
  case 1
  then show ?case by simp
next
  case (2 c cs)
  show ?case
  proof (cases "prefix ''&nbsp;'' (c # cs)")
    case True
    with 2 show ?thesis by auto
  next
    case False
    have "\<not> prefix ''nbsp;'' (sub_nbsp cs)" if "c = CHR ''&''"
    proof
      assume "prefix ''nbsp;'' (sub_nbsp cs)"
      then have "prefix ''nbsp;'' cs"
        by (rule prefix_sub_nbsp [rotated]) simp
      with that False show False by simp
    qed
    with 2 False show ?thesis by auto
  qed
qed

lemma nbsp_free_append: "nbsp_free (xs @ ys) \<Longrightarrow> nbsp_free xs \<and> nbsp_free ys"
proof (induction xs)
  case Nil
  then show ?case by simp
next
  case (Cons c cs)
  have "prefix ''&nbsp;'' (c # cs) \<Longrightarrow> prefix ''&nbsp;'' ((c # cs) @ ys)"
    by (rule prefix_prefix)
  with Cons show ?case by auto
qed

lemma nbsp_free_suffix: "nbsp_free s \<Longrightarrow> suffix t s \<Longrightarrow> nbsp_free t"
  by (auto simp: suffix_def dest: nbsp_free_append)

lemma nbsp_free_sub_spaces: "nbsp_free s \<Longrightarrow> nbsp_free (sub_spaces s)"
proof (induction s rule: sub_spaces.induct)
  case 1
  then show ?case by simp
next
  case (2 c cs)
  show ?case
  proof (cases "isspace c")
    case True
    from "2.prems" have "nbsp_free (dropWhile isspace cs)"
      by (auto intro: nbsp_free_suffix [OF _ suffix_dropWhile])
    with 2 True show ?thesis by simp
  next
    case False
    have "\<not> prefix ''nbsp;'' (sub_spaces cs)" if "c = CHR ''&''"
    proof
      assume "prefix ''nbsp;'' (sub_spaces cs)"
      then have "prefix ''nbsp;'' cs"
        by (rule prefix_sub_spaces [rotated]) simp
      with that "2.prems" show False by simp
    qed
    with 2 False show ?thesis by auto
  qed
qed

lemma nbsp_free_strip: "nbsp_free s \<Longrightarrow> nbsp_free (strip s)"
proof -
  assume n: "nbsp_free s"
  obtain p q where "s = p @ strip s @ q"
    using strip_decomp by blast
  with n have "nbsp_free (p @ strip s @ q)" by simp
  then show ?thesis
    by (blast dest: nbsp_free_append)
qed

lemma sub_spaces_fix: "single_spaced s \<Longrightarrow> sub_spaces s = s"
proof (induction s)
  case Nil
  then show ?case by simp
next
  case (Cons c cs)
  show ?case
  proof (cases "isspace c")
    case True
    with Cons.prems have "dropWhile isspace cs = cs"
      by (cases cs) (auto split: if_splits)
    with Cons True show ?thesis by (simp split: if_splits)
  next
    case False
    with Cons show ?thesis by simp
  qed
qed

lemma single_spaced_sub_spaces: "single_spaced (sub_spaces s)"
proof (induction s rule: sub_spaces.induct)
  case 1
  then show ?case by simp
next
  case (2 c cs)
  show ?case
  proof (cases "isspace c")
    case True
    have "case sub_spaces (dropWhile isspace cs) of [] \<Rightarrow> True | d # _ \<Rightarrow> \<not> isspace d"
    proof (cases "dropWhile isspace cs")
      case Nil
      then show ?thesis by (simp del: dropWhile_eq_Nil_conv)
    next
      case (Cons d ds)
      then have "\<not> isspace d"
        by (metis hd_dropWhile list.sel(1) list.distinct(1))
      with Cons show ?thesis by simp
    qed
    with 2 True show ?thesis by simp
  next
    case False
    with 2 show ?thesis by simp
  qed
qed

lemma single_spaced_append:
  "single_spaced (xs @ ys) \<Longrightarrow> single_spaced xs \<and> single_spaced ys"
proof (induction xs)
  case Nil
  then show ?case by simp
next
  case (Cons c cs)
  then show ?case
    by (cases cs) (auto split: if_splits)
qed

lemma single_spaced_strip: "single_spaced s \<Longrightarrow> single_spaced (strip s)"
proof -
  assume n: "single_spaced s"
  obtain p q where "s = p @ strip s @ q"
    using strip_decomp by blast
  with n have "single_spaced (p @ strip s @ q)" by simp
  then show ?thesis
    by (blast dest: single_spaced_append)
qed

lemma strip_ends: "strip s = [] \<or> (\<not> isspace (hd (strip s)) \<and> \<not> isspace (last (strip s)))"
proof (cases "strip s = []")
  case True
  then show ?thesis by simp
next
  case False
  let ?u = "rev (dropWhile isspace (rev s))"
  have s: "strip s = dropWhile isspace ?u"
    by (simp add: strip_def)
  with False have h: "\<not> isspace (hd (strip s))"
    by (simp add: hd_dropWhile)
  have u: "?u \<noteq> []"
  proof
    assume "?u = []"
    then have "strip s = []" by (simp only: s dropWhile.simps)
    with False show False by simp
  qed
  then have "dropWhile isspace (rev s) \<noteq> []" by simp
  then have "\<not> isspace (hd (dropWhile isspace (rev s)))"
    by (rule hd_dropWhile)
  with u have lu: "\<not> isspace (last ?u)"
    by (simp add: last_rev)
  have "?u = takeWhile isspace ?u @ strip s"
    by (simp add: s)
  with False have "last ?u = last (strip s)"
    by (metis last_appendR)
  with lu h show ?thesis by simp
qed

lemma strip_fix:
  assumes "t = [] \<or> (\<not> isspace (hd t) \<and> \<not> isspace (last t))"
  shows "strip t = t"
proof (cases "t = []")
  case True
  then show ?thesis by (simp add: strip_def)
next
  case False
  with assms have h: "\<not> isspace (hd t)" and l: "\<not> isspace (last t)" by simp_all
  from False l have "dropWhile isspace (rev t) = rev t"
    by (cases "rev t") (auto simp: last_rev [symmetric] hd_rev)
  with False h show ?thesis
    by (cases t) (simp_all add: strip_def)
qed

lemma strip_strip: "strip (strip s) = strip s"
  by (rule strip_fix) (rule strip_ends)

lemma strip_html_idem: "strip_html (strip_html x) = strip_html x"
proof -
  let ?y = "strip_html x"
  have "no_tag ?y"
    unfolding strip_html_def
    by (intro no_tag_strip no_tag_sub_spaces no_tag_sub_nbsp no_tag_sub_tags)
  then have 1: "sub_tags ?y = ?y" by (rule sub_tags_fix)
  have "nbsp_free ?y"
    unfolding strip_html_def
    by (intro nbsp_free_strip nbsp_free_sub_spaces nbsp_free_sub_nbsp)
  then have 2: "sub_nbsp ?y = ?y" by (rule sub_nbsp_fix)
  have "single_spaced ?y"
    unfolding strip_html_def
    by (intro single_spaced_strip single_spaced_sub_spaces)
  then have 3: "sub_spaces ?y = ?y" by (rule sub_spaces_fix)
  have 4: "strip ?y = ?y"
    unfolding strip_html_def by (rule strip_strip)
  have "strip_html ?y = strip (sub_spaces (sub_nbsp (sub_tags ?y)))"
    by (simp only: strip_html_def)
  also have "\<dots> = ?y"
    by (simp only: 1 2 3 4)
  finally show ?thesis .
qed

section \<open>The loop over the entries and the deduplicator\<close>

lemma accepted_append: "accepted (xs @ ys) = accepted xs @ accepted ys"
  by (induction xs rule: accepted.induct) simp_all

lemma accepted_report: "report stdout p m = Inr evs \<Longrightarrow> accepted evs = []"
  by (auto simp: report_def split: option.splits if_splits)

lemma accepted_notify: "notify stdout e = Inr evs \<Longrightarrow> accepted evs = []"
  by (auto simp: notify_def accepted_report split: prod.splits)

lemma filterNew_old [simp]:
  "entry_key e \<in> S \<Longrightarrow> filterNew (e # es) S = filterNew es S"
  by simp

lemma filterNew_new_fst [simp]:
  "entry_key e \<notin> S \<Longrightarrow>
   fst (filterNew (e # es) S) = e # fst (filterNew es (insert (entry_key e) S))"
  by (simp split: prod.splits)

lemma filterNew_new_snd [simp]:
  "entry_key e \<notin> S \<Longrightarrow>
   snd (filterNew (e # es) S) = snd (filterNew es (insert (entry_key e) S))"
  by (simp split: prod.splits)

declare filterNew.simps(2) [simp del]

lemma filterNew_seen:
  "snd (filterNew es S) = S \<union> entry_key ` set (fst (filterNew es S))"
proof (induction es arbitrary: S)
  case Nil
  then show ?case by simp
next
  case (Cons e es)
  show ?case
  proof (cases "entry_key e \<in> S")
    case True
    with Cons show ?thesis by simp
  next
    case False
    with Cons [of "insert (entry_key e) S"] show ?thesis
      by simp
  qed
qed

lemma filterNew_seen_all:
  "snd (filterNew es S) = S \<union> entry_key ` set es"
proof (induction es arbitrary: S)
  case Nil
  then show ?case by simp
next
  case (Cons e es)
  show ?case
  proof (cases "entry_key e \<in> S")
    case True
    with Cons [of S] show ?thesis by auto
  next
    case False
    with Cons [of "insert (entry_key e) S"] show ?thesis
      by simp
  qed
qed

lemma filterNew_disjoint:
  "entry_key ` set (fst (filterNew es S)) \<inter> S = {}"
proof (induction es arbitrary: S)
  case Nil
  then show ?case by simp
next
  case (Cons e es)
  show ?case
  proof (cases "entry_key e \<in> S")
    case True
    with Cons [of S] show ?thesis by simp
  next
    case False
    with Cons [of "insert (entry_key e) S"] show ?thesis
      by auto
  qed
qed

lemma filterNew_distinct:
  "distinct (map entry_key (fst (filterNew es S)))"
proof (induction es arbitrary: S)
  case Nil
  then show ?case by simp
next
  case (Cons e es)
  show ?case
  proof (cases "entry_key e \<in> S")
    case True
    with Cons [of S] show ?thesis by simp
  next
    case False
    with Cons [of "insert (entry_key e) S"] filterNew_disjoint [of es "insert (entry_key e) S"]
    show ?thesis
      by auto
  qed
qed

lemma filterNew_subseq: "subseq (fst (filterNew es S)) es"
proof (induction es arbitrary: S)
  case Nil
  then show ?case by simp
next
  case (Cons e es)
  show ?case
  proof (cases "entry_key e \<in> S")
    case True
    with Cons [of S] show ?thesis by (simp add: list_emb_Cons)
  next
    case False
    with Cons [of "insert (entry_key e) S"] show ?thesis
      by simp
  qed
qed

lemma fetch_if_changed_frame:
  "fetch_if_changed st session = (st1, r) \<Longrightarrow>
   seen_keys st1 = seen_keys st \<and> feed_url st1 = feed_url st \<and> poll_interval st1 = poll_interval st"
  by (auto simp: fetch_if_changed_def Let_def split: sum.splits if_splits)

lemma filterNew_single:
  "entry_key e \<notin> S \<Longrightarrow> filterNew [e] S = ([e], insert (entry_key e) S)"
  by (simp add: filterNew.simps)

lemma process_entries_prefix:
  "process_entries stdout st ch es = (st', r, evs) \<Longrightarrow>
   \<exists>n. n \<le> length es \<and>
     accepted evs = fst (filterNew (take n es) (seen_keys st)) \<and>
     st' = st\<lparr>seen_keys := snd (filterNew (take n es) (seen_keys st))\<rparr> \<and>
     ((\<exists>c. r = Inr c) \<longrightarrow> n = length es)"
proof (induction es arbitrary: st ch st' r evs)
  case Nil
  then show ?case by simp
next
  case (Cons e es)
  show ?case
  proof (cases "entry_key e \<in> seen_keys st")
    case True
    with Cons.prems have "process_entries stdout st ch es = (st', r, evs)" by simp
    from Cons.IH [OF this] obtain n where n: "n \<le> length es"
      "accepted evs = fst (filterNew (take n es) (seen_keys st))"
      "st' = st\<lparr>seen_keys := snd (filterNew (take n es) (seen_keys st))\<rparr>"
      "(\<exists>c. r = Inr c) \<longrightarrow> n = length es"
      by blast
    with True show ?thesis
      by (intro exI [of _ "Suc n"]) simp
  next
    case False
    let ?st1 = "st\<lparr>seen_keys := insert (entry_key e) (seen_keys st)\<rparr>"
    show ?thesis
    proof (cases "notify stdout e")
      case (Inl x)
      with Cons.prems False have "st' = ?st1" "r = Inl x" "evs = [Accepted e]"
        by simp_all
      with False show ?thesis
        by (intro exI [of _ "Suc 0"]) (simp add: filterNew_single)
    next
      case (Inr shown)
      obtain st2 r2 evs2 where p: "process_entries stdout ?st1 True es = (st2, r2, evs2)"
        by (cases "process_entries stdout ?st1 True es") auto
      with Cons.prems False Inr have e: "st' = st2" "r = r2" "evs = Accepted e # shown @ evs2"
        by simp_all
      from Cons.IH [OF p] obtain n where n: "n \<le> length es"
        "accepted evs2 = fst (filterNew (take n es) (insert (entry_key e) (seen_keys st)))"
        "st2 = ?st1\<lparr>seen_keys := snd (filterNew (take n es) (insert (entry_key e) (seen_keys st)))\<rparr>"
        "(\<exists>c. r2 = Inr c) \<longrightarrow> n = length es"
        by auto
      with e False accepted_notify [OF Inr] show ?thesis
        by (intro exI [of _ "Suc n"]) (simp add: accepted_append)
    qed
  qed
qed

lemma process_entries_filterNew:
  assumes "process_entries stdout st ch es = (st', Inr c, evs)"
  shows "accepted evs = fst (filterNew es (seen_keys st)) \<and>
         st' = st\<lparr>seen_keys := snd (filterNew es (seen_keys st))\<rparr>"
  using process_entries_prefix [OF assms] by auto

lemma process_entries_changed:
  "process_entries stdout st ch es = (st', Inr c, evs) \<Longrightarrow> c = (ch \<or> accepted evs \<noteq> [])"
proof (induction es arbitrary: st ch st' c evs)
  case Nil
  then show ?case by auto
next
  case (Cons e es)
  show ?case
  proof (cases "entry_key e \<in> seen_keys st")
    case True
    with Cons.prems have "process_entries stdout st ch es = (st', Inr c, evs)" by simp
    from Cons.IH [OF this] show ?thesis .
  next
    case False
    let ?st1 = "st\<lparr>seen_keys := insert (entry_key e) (seen_keys st)\<rparr>"
    show ?thesis
    proof (cases "notify stdout e")
      case (Inl x)
      with Cons.prems False show ?thesis by simp
    next
      case (Inr shown)
      obtain st2 r2 evs2 where p: "process_entries stdout ?st1 True es = (st2, r2, evs2)"
        by (cases "process_entries stdout ?st1 True es") auto
      with Cons.prems False Inr have e: "r2 = Inr c" "evs = Accepted e # shown @ evs2"
        by simp_all
      from Cons.IH [of ?st1 True st2 c evs2] p e have "c = True" by simp
      with e show ?thesis by simp
    qed
  qed
qed

lemma process_entries_failure:
  "process_entries stdout st ch es = (st', Inl x, evs) \<Longrightarrow>
   accepted evs \<noteq> [] \<and> notify stdout (last (accepted evs)) = Inl x
   \<and> (\<exists>pre. evs = pre @ [Accepted (last (accepted evs))])"
proof (induction es arbitrary: st ch st' evs)
  case Nil
  then show ?case by simp
next
  case (Cons e es)
  show ?case
  proof (cases "entry_key e \<in> seen_keys st")
    case True
    with Cons.prems have "process_entries stdout st ch es = (st', Inl x, evs)" by simp
    from Cons.IH [OF this] show ?thesis .
  next
    case False
    let ?st1 = "st\<lparr>seen_keys := insert (entry_key e) (seen_keys st)\<rparr>"
    show ?thesis
    proof (cases "notify stdout e")
      case (Inl y)
      with Cons.prems False show ?thesis by auto
    next
      case (Inr shown)
      obtain st2 r2 evs2 where p: "process_entries stdout ?st1 True es = (st2, r2, evs2)"
        by (cases "process_entries stdout ?st1 True es") auto
      with Cons.prems False Inr have e: "r2 = Inl x" "evs = Accepted e # shown @ evs2"
        by simp_all
      from Cons.IH [of ?st1 True st2 evs2] p e
      have i: "accepted evs2 \<noteq> []" "notify stdout (last (accepted evs2)) = Inl x"
        and "\<exists>pre. evs2 = pre @ [Accepted (last (accepted evs2))]"
        by simp_all
      then obtain pre where pre: "evs2 = pre @ [Accepted (last (accepted evs2))]" by blast
      from e accepted_notify [OF Inr] have a: "accepted evs = e # accepted evs2"
        by (simp add: accepted_append)
      with i have l: "last (accepted evs) = last (accepted evs2)" by simp
      from e pre have "evs = (Accepted e # shown @ pre) @ [Accepted (last (accepted evs2))]"
        by simp
      also have "last (accepted evs2) = last (accepted evs)" by (rule l [symmetric])
      finally have "\<exists>pre. evs = pre @ [Accepted (last (accepted evs))]" ..
      with a i l show ?thesis by simp
    qed
  qed
qed

lemma process_entries_raised:
  "process_entries stdout st ch es = (st', Inl x, evs) \<Longrightarrow>
   \<exists>n. n < length es \<and>
     accepted evs = fst (filterNew (take (Suc n) es) (seen_keys st)) \<and>
     st' = st\<lparr>seen_keys := snd (filterNew (take (Suc n) es) (seen_keys st))\<rparr> \<and>
     last (accepted evs) = es ! n \<and> notify stdout (es ! n) = Inl x"
proof (induction es arbitrary: st ch st' evs)
  case Nil
  then show ?case by simp
next
  case (Cons e es)
  show ?case
  proof (cases "entry_key e \<in> seen_keys st")
    case True
    with Cons.prems have "process_entries stdout st ch es = (st', Inl x, evs)" by simp
    from Cons.IH [OF this] obtain n where n: "n < length es"
      "accepted evs = fst (filterNew (take (Suc n) es) (seen_keys st))"
      "st' = st\<lparr>seen_keys := snd (filterNew (take (Suc n) es) (seen_keys st))\<rparr>"
      "last (accepted evs) = es ! n" "notify stdout (es ! n) = Inl x"
      by blast
    with True show ?thesis
      by (intro exI [of _ "Suc n"]) simp
  next
    case False
    let ?st1 = "st\<lparr>seen_keys := insert (entry_key e) (seen_keys st)\<rparr>"
    show ?thesis
    proof (cases "notify stdout e")
      case (Inl y)
      with Cons.prems False have "st' = ?st1" "y = x" "evs = [Accepted e]"
        by simp_all
      with False Inl show ?thesis
        by (intro exI [of _ 0]) (simp add: filterNew_single)
    next
      case (Inr shown)
      obtain st2 r2 evs2 where p: "process_entries stdout ?st1 True es = (st2, r2, evs2)"
        by (cases "process_entries stdout ?st1 True es") auto
      with Cons.prems False Inr have e: "st' = st2" "r2 = Inl x" "evs = Accepted e # shown @ evs2"
        by simp_all
      from p e have p': "process_entries stdout ?st1 True es = (st2, Inl x, evs2)" by simp
      from process_entries_failure [OF p'] have ne: "accepted evs2 \<noteq> []" by simp
      from Cons.IH [OF p'] obtain n where n: "n < length es"
        "accepted evs2 = fst (filterNew (take (Suc n) es) (insert (entry_key e) (seen_keys st)))"
        "st2 = ?st1\<lparr>seen_keys :=
           snd (filterNew (take (Suc n) es) (insert (entry_key e) (seen_keys st)))\<rparr>"
        "last (accepted evs2) = es ! n" "notify stdout (es ! n) = Inl x"
        by auto
      from e accepted_notify [OF Inr] have a: "accepted evs = e # accepted evs2"
        by (simp add: accepted_append)
      with ne have l: "last (accepted evs) = last (accepted evs2)" by simp
      from n e False a l show ?thesis
        by (intro exI [of _ "Suc n"]) simp
    qed
  qed
qed

lemma process_entries_returns:
  "\<forall>e \<in> set es. \<exists>shown. notify stdout e = Inr shown \<Longrightarrow>
   \<exists>st' c evs. process_entries stdout st ch es = (st', Inr c, evs)"
proof (induction es arbitrary: st ch)
  case Nil
  then show ?case by simp
next
  case (Cons e es)
  from Cons.prems have all: "\<forall>e \<in> set es. \<exists>shown. notify stdout e = Inr shown" by simp
  show ?case
  proof (cases "entry_key e \<in> seen_keys st")
    case True
    with Cons.IH [OF all, of st ch] show ?thesis by simp
  next
    case False
    let ?st1 = "st\<lparr>seen_keys := insert (entry_key e) (seen_keys st)\<rparr>"
    from Cons.prems obtain shown where n: "notify stdout e = Inr shown" by auto
    from Cons.IH [OF all, of ?st1 True] obtain st2 c2 evs2
      where "process_entries stdout ?st1 True es = (st2, Inr c2, evs2)" by blast
    with False n show ?thesis by simp
  qed
qed

lemma subseq_take: "subseq (take n es) es"
proof -
  have "subseq (take n es @ []) (take n es @ drop n es)"
    by (intro list_emb_append_mono) simp_all
  then show ?thesis by simp
qed

lemma process_entries_keys:
  assumes "process_entries stdout st ch es = (st', r, evs)"
  shows "seen_keys st' = seen_keys st \<union> entry_key ` set (accepted evs)"
    and "distinct (map entry_key (accepted evs))"
    and "entry_key ` set (accepted evs) \<inter> seen_keys st = {}"
    and "subseq (accepted evs) es"
proof -
  from process_entries_prefix [OF assms] obtain n
    where a: "accepted evs = fst (filterNew (take n es) (seen_keys st))"
    and s: "st' = st\<lparr>seen_keys := snd (filterNew (take n es) (seen_keys st))\<rparr>"
    by blast
  from s have "seen_keys st' = snd (filterNew (take n es) (seen_keys st))" by simp
  then show "seen_keys st' = seen_keys st \<union> entry_key ` set (accepted evs)"
    by (simp only: a filterNew_seen [symmetric])
  show "distinct (map entry_key (accepted evs))"
    by (simp only: a filterNew_distinct)
  show "entry_key ` set (accepted evs) \<inter> seen_keys st = {}"
    by (simp only: a filterNew_disjoint)
  have "subseq (accepted evs) (take n es)"
    by (simp only: a filterNew_subseq)
  then show "subseq (accepted evs) es"
    using subseq_take by (rule subseq_order.order_trans)
qed

lemma check_once_cases:
  assumes "check_once st session stdout = (st', r, evs)"
  obtains (failed) e where "fetch_if_changed st session = (st', Inl e)" "r = Inl e" "evs = []"
  | (not_modified) "fetch_if_changed st session = (st', Inr None)" "r = Inr False" "evs = []"
  | (malformed) "fetch_if_changed st session = (st', Inr (Some Malformed))"
      "r = Inl ParseError" "evs = []"
  | (feed) st1 entries where "fetch_if_changed st session = (st1, Inr (Some (Feed entries)))"
      "process_entries stdout st1 False (rev entries) = (st', r, evs)"
proof -
  obtain st1 r1 where f: "fetch_if_changed st session = (st1, r1)"
    by (cases "fetch_if_changed st session") auto
  show thesis
  proof (cases r1)
    case (Inl e)
    with f assms have "st' = st1" "r = Inl e" "evs = []"
      by (simp_all add: check_once_def)
    with f Inl show thesis by (intro failed [of e]) simp_all
  next
    case (Inr d)
    show thesis
    proof (cases d)
      case None
      with Inr f assms have "st' = st1" "r = Inr False" "evs = []"
        by (simp_all add: check_once_def)
      with f Inr None show thesis by (intro not_modified) simp_all
    next
      case (Some x)
      show thesis
      proof (cases x)
        case Malformed
        with Some Inr f assms have "st' = st1" "r = Inl ParseError" "evs = []"
          by (simp_all add: check_once_def)
        with f Inr Some Malformed show thesis by (intro malformed) simp_all
      next
        case (Feed entries)
        with Some Inr f assms
        have "process_entries stdout st1 False (rev entries) = (st', r, evs)"
          by (simp add: check_once_def)
        with f Inr Some Feed show thesis by (intro feed [of st1 entries]) simp_all
      qed
    qed
  qed
qed

lemma check_once_keys:
  assumes "check_once st session stdout = (st', r, evs)"
  shows "seen_keys st' = seen_keys st \<union> entry_key ` set (accepted evs)"
    and "distinct (map entry_key (accepted evs))"
    and "entry_key ` set (accepted evs) \<inter> seen_keys st = {}"
proof -
  have "seen_keys st' = seen_keys st \<union> entry_key ` set (accepted evs)
      \<and> distinct (map entry_key (accepted evs))
      \<and> entry_key ` set (accepted evs) \<inter> seen_keys st = {}"
    using assms
  proof (cases rule: check_once_cases)
    case (failed e)
    then show ?thesis by (simp add: fetch_if_changed_frame)
  next
    case not_modified
    then show ?thesis by (simp add: fetch_if_changed_frame)
  next
    case malformed
    then show ?thesis by (simp add: fetch_if_changed_frame)
  next
    case (feed st1 entries)
    from feed(1) have "seen_keys st1 = seen_keys st"
      by (simp add: fetch_if_changed_frame)
    with process_entries_keys [OF feed(2)] show ?thesis by simp
  qed
  then show "seen_keys st' = seen_keys st \<union> entry_key ` set (accepted evs)"
    and "distinct (map entry_key (accepted evs))"
    and "entry_key ` set (accepted evs) \<inter> seen_keys st = {}"
    by simp_all
qed

lemma check_once_no_document:
  assumes "fetch_if_changed st session = (st1, r1)"
    and "\<forall>entries. r1 \<noteq> Inr (Some (Feed entries))"
    and "check_once st session stdout = (st', r, evs)"
  shows "evs = [] \<and> seen_keys st' = seen_keys st"
  using assms(3)
proof (cases rule: check_once_cases)
  case (feed st1 entries)
  with assms(1,2) show ?thesis by auto
qed (simp_all add: fetch_if_changed_frame)

lemma accepted_handler_log [simp]: "accepted (handler_log r) = []"
  by (simp add: handler_log_def split: sum.splits)

lemma run_forever_step:
  assumes "check_once st (cyc_session c) (cyc_stdout c) = (st1, r1, evs)"
  shows "run_forever st (c # cs) =
    (if r1 = Inl CancelledError then (st1, Some CancelledError, evs)
     else if cyc_sleep c = CancelledAsleep then (st1, Some CancelledError, evs @ handler_log r1)
     else (case run_forever st1 cs of
             (st2, r, rest) \<Rightarrow> (st2, r, evs @ handler_log r1 @ [Slept (poll_interval st1)] @ rest)))"
proof (cases r1)
  case (Inl e)
  with assms show ?thesis
    by (cases "cyc_sleep c") (simp_all add: handler_log_def split: prod.splits)
next
  case (Inr changed)
  with assms show ?thesis
    by (cases "cyc_sleep c") (simp_all add: handler_log_def split: prod.splits)
qed

lemma run_forever_keys:
  "run_forever st cs = (st', r, tr) \<Longrightarrow>
   seen_keys st' = seen_keys st \<union> entry_key ` set (accepted tr)
   \<and> distinct (map entry_key (accepted tr))
   \<and> entry_key ` set (accepted tr) \<inter> seen_keys st = {}"
proof (induction cs arbitrary: st st' r tr)
  case Nil
  then show ?case by simp
next
  case (Cons c cs)
  obtain st1 r1 evs where k: "check_once st (cyc_session c) (cyc_stdout c) = (st1, r1, evs)"
    by (cases "check_once st (cyc_session c) (cyc_stdout c)") auto
  note ck = check_once_keys [OF k]
  note step = run_forever_step [OF k, of cs]
  show ?case
  proof (cases "r1 = Inl CancelledError \<or> cyc_sleep c = CancelledAsleep")
    case True
    with step Cons.prems have "st' = st1" and "accepted tr = accepted evs"
      by (auto simp: accepted_append split: if_splits)
    with ck show ?thesis by simp
  next
    case False
    obtain st2 r2 rest where rf: "run_forever st1 cs = (st2, r2, rest)"
      by (cases "run_forever st1 cs") auto
    with step False Cons.prems have "st' = st2"
      and "tr = evs @ handler_log r1 @ [Slept (poll_interval st1)] @ rest"
      by simp_all
    then have a: "accepted tr = accepted evs @ accepted rest" and s: "st' = st2"
      by (simp_all add: accepted_append)
    from Cons.IH [OF rf] have
      i1: "seen_keys st2 = seen_keys st1 \<union> entry_key ` set (accepted rest)" and
      i2: "distinct (map entry_key (accepted rest))" and
      i3: "entry_key ` set (accepted rest) \<inter> seen_keys st1 = {}"
      by simp_all
    from ck i1 have "seen_keys st2 = seen_keys st \<union> entry_key ` set (accepted tr)"
      by (auto simp: a)
    moreover from ck i2 i3 have "distinct (map entry_key (accepted tr))"
      by (auto simp: a)
    moreover from ck i3 have "entry_key ` set (accepted tr) \<inter> seen_keys st = {}"
      by (auto simp: a)
    ultimately show ?thesis by (simp add: s)
  qed
qed

lemma distinct_keys_at_most_one:
  assumes "distinct (map entry_key es)"
  shows "length (filter (\<lambda>e. entry_key e = k) es) \<le> 1"
  using assms
proof (induction es)
  case Nil
  then show ?case by simp
next
  case (Cons e es)
  show ?case
  proof (cases "entry_key e = k")
    case True
    from Cons.prems have "entry_key e \<notin> entry_key ` set es" by simp
    with True have "\<forall>x \<in> set es. entry_key x \<noteq> k" by (metis image_eqI)
    then have "filter (\<lambda>e. entry_key e = k) es = []"
      by (simp add: filter_empty_conv)
    with True show ?thesis by simp
  next
    case False
    with Cons show ?thesis by simp
  qed
qed

lemma reported_subseq: "subseq (reported evs) (accepted evs)"
  by (induction evs rule: reported.induct) (simp_all add: list_emb_Cons)

section \<open>Entries with an empty key\<close>

lemma entry_key_empty: "entry_key e = [] \<longleftrightarrow> entry_id e = [] \<and> updated e = []"
  by (simp add: entry_key_def str_or_def)

lemma filterNew_first_wins:
  "filter (\<lambda>e. entry_key e = k) (fst (filterNew es S)) =
     (if k \<in> S then [] else take 1 (filter (\<lambda>e. entry_key e = k) es))"
proof (induction es arbitrary: S)
  case Nil
  then show ?case by simp
next
  case (Cons e es)
  show ?case
  proof (cases "entry_key e \<in> S")
    case True
    with Cons [of S] show ?thesis by auto
  next
    case False
    with Cons [of "insert (entry_key e) S"] show ?thesis by auto
  qed
qed

lemma take1_filter_take:
  "take 1 (filter P (take n es)) = [] \<or> take 1 (filter P (take n es)) = take 1 (filter P es)"
proof (induction es arbitrary: n)
  case Nil
  then show ?case by simp
next
  case (Cons e es)
  show ?case
  proof (cases n)
    case 0
    then show ?thesis by simp
  next
    case (Suc m)
    with Cons [of m] show ?thesis by auto
  qed
qed

lemma subseq_filter_length:
  "subseq xs ys \<Longrightarrow> length (filter P xs) \<le> length (filter P ys)"
  by (induction rule: list_emb.induct) auto

lemma blank_run:
  "snd (snd (run_forever (AtomStatusWatcher FEED_URL 60) blank_cycles)) =
     [Accepted blank1, Printed ''OpenAI API'' ''first'', Slept 60, Slept 60]"
  by code_simp

section \<open>One cycle on a fetched document\<close>

lemma fetch_replying_ok:
  "fetch_if_changed st (replying (ok_response es)) = (st, Inr (Some (Feed es)))"
  by (simp add: fetch_if_changed_def replying_def ok_response_def)

lemma filterNew_keys:
  "entry_key ` set (fst (filterNew es S)) = entry_key ` set es - S"
proof -
  have "S \<union> entry_key ` set (fst (filterNew es S)) = S \<union> entry_key ` set es"
    by (simp only: filterNew_seen [symmetric] filterNew_seen_all)
  moreover have "entry_key ` set (fst (filterNew es S)) \<inter> S = {}"
    by (rule filterNew_disjoint)
  ultimately show ?thesis by blast
qed

lemma report_terminal: "\<exists>shown. report terminal product message = Inr shown"
  by (simp add: report_def terminal_def split: option.splits)

lemma notify_terminal: "\<exists>shown. notify terminal e = Inr shown"
  by (simp add: notify_def report_terminal split: prod.splits)

lemma process_entries_terminal:
  "\<exists>st' c evs. process_entries terminal st ch es = (st', Inr c, evs)"
  by (rule process_entries_returns) (simp add: notify_terminal)

lemma check_once_feed:
  assumes "fetch_if_changed st session = (st1, Inr (Some (Feed entries)))"
    and "check_once st session stdout = (st', Inr changed, evs)"
  shows "st' = st1\<lparr>seen_keys := snd (filterNew (rev entries) (seen_keys st))\<rparr>"
    and "accepted evs = fst (filterNew (rev entries) (seen_keys st))"
    and "changed = (accepted evs \<noteq> [])"
proof -
  from assms have p: "process_entries stdout st1 False (rev entries) = (st', Inr changed, evs)"
    by (simp add: check_once_def)
  from assms have s: "seen_keys st1 = seen_keys st"
    by (simp add: fetch_if_changed_frame)
  from process_entries_filterNew [OF p] s
  show "accepted evs = fst (filterNew (rev entries) (seen_keys st))"
    and "st' = st1\<lparr>seen_keys := snd (filterNew (rev entries) (seen_keys st))\<rparr>"
    by simp_all
  from process_entries_changed [OF p] show "changed = (accepted evs \<noteq> [])" by simp
qed

lemma check_once_terminal:
  assumes "fetch_if_changed st session = (st1, Inr (Some (Feed entries)))"
  shows "\<exists>changed evs. check_once st session terminal =
     (st1\<lparr>seen_keys := snd (filterNew (rev entries) (seen_keys st))\<rparr>, Inr changed, evs)
     \<and> accepted evs = fst (filterNew (rev entries) (seen_keys st))"
proof -
  from process_entries_terminal [of st1 False "rev entries"] obtain st2 c evs
    where p: "process_entries terminal st1 False (rev entries) = (st2, Inr c, evs)" by blast
  with assms have k: "check_once st session terminal = (st2, Inr c, evs)"
    by (simp add: check_once_def)
  from check_once_feed(1,2) [OF assms k] k show ?thesis by simp
qed

lemma check_once_terminal_accepted:
  "accepted (snd (snd (check_once st (replying (ok_response es)) terminal))) =
     fst (filterNew (rev es) (seen_keys st))"
  and check_once_terminal_keys:
  "seen_keys (fst (check_once st (replying (ok_response es)) terminal)) =
     seen_keys st \<union> entry_key ` set es"
proof -
  from check_once_terminal [OF fetch_replying_ok [of st es]] obtain changed evs
    where k: "check_once st (replying (ok_response es)) terminal =
        (st\<lparr>seen_keys := snd (filterNew (rev es) (seen_keys st))\<rparr>, Inr changed, evs)"
      and a: "accepted evs = fst (filterNew (rev es) (seen_keys st))"
    by blast
  from k a show "accepted (snd (snd (check_once st (replying (ok_response es)) terminal))) =
     fst (filterNew (rev es) (seen_keys st))" by simp
  from k show "seen_keys (fst (check_once st (replying (ok_response es)) terminal)) =
     seen_keys st \<union> entry_key ` set es"
    by (simp add: filterNew_seen_all)
qed

lemma check_once_prefix:
  assumes "fetch_if_changed st session = (st1, Inr (Some (Feed entries)))"
    and "check_once st session stdout = (st', r, evs)"
  shows "\<exists>n. n \<le> length entries \<and>
     accepted evs = fst (filterNew (take n (rev entries)) (seen_keys st)) \<and>
     seen_keys st' = snd (filterNew (take n (rev entries)) (seen_keys st)) \<and>
     ((\<exists>c. r = Inr c) \<longrightarrow> n = length entries)"
proof -
  from assms have p: "process_entries stdout st1 False (rev entries) = (st', r, evs)"
    by (simp add: check_once_def)
  from assms have s: "seen_keys st1 = seen_keys st"
    by (simp add: fetch_if_changed_frame)
  from process_entries_prefix [OF p] obtain n where n: "n \<le> length (rev entries)"
    "accepted evs = fst (filterNew (take n (rev entries)) (seen_keys st1))"
    "st' = st1\<lparr>seen_keys := snd (filterNew (take n (rev entries)) (seen_keys st1))\<rparr>"
    "(\<exists>c. r = Inr c) \<longrightarrow> n = length (rev entries)"
    by blast
  with s show ?thesis
    by (intro exI [of _ n]) simp
qed

section \<open>Single entries\<close>

lemma check_once_single_new:
  assumes "entry_key e \<notin> seen_keys st"
  shows "check_once st (replying (ok_response [e])) stdout =
     (case notify stdout e of
        Inr shown \<Rightarrow>
          (st\<lparr>seen_keys := insert (entry_key e) (seen_keys st)\<rparr>, Inr True, Accepted e # shown)
      | Inl x \<Rightarrow> (st\<lparr>seen_keys := insert (entry_key e) (seen_keys st)\<rparr>, Inl x, [Accepted e]))"
  using assms by (simp add: check_once_def fetch_replying_ok split: sum.splits)

lemma accepted_single_new:
  assumes "entry_key e \<notin> seen_keys st"
  shows "accepted (snd (snd (check_once st (replying (ok_response [e])) stdout))) = [e]"
    and "fst (check_once st (replying (ok_response [e])) stdout) =
      st\<lparr>seen_keys := insert (entry_key e) (seen_keys st)\<rparr>"
proof -
  show "accepted (snd (snd (check_once st (replying (ok_response [e])) stdout))) = [e]"
  proof (cases "notify stdout e")
    case (Inl x)
    with assms show ?thesis by (simp add: check_once_single_new)
  next
    case (Inr shown)
    with assms accepted_notify [OF Inr] show ?thesis by (simp add: check_once_single_new)
  qed
  from assms show "fst (check_once st (replying (ok_response [e])) stdout) =
      st\<lparr>seen_keys := insert (entry_key e) (seen_keys st)\<rparr>"
    by (simp add: check_once_single_new split: sum.splits)
qed

text \<open>
  A cycle ended by an exception of the print: the key of the entry whose notification
  raised is in \<open>seen_keys\<close>, nothing was printed for it, and the next cycle on the same
  document skips it.
\<close>

lemma print_failure_commits_key:
  "check_once (AtomStatusWatcher FEED_URL 60) (replying (ok_response [entryB, entryA])) closed_pipe =
       ((AtomStatusWatcher FEED_URL 60)\<lparr>seen_keys := {''A|t1''}\<rparr>, Inl OSError, [Accepted entryA])
   \<and> reported [Accepted entryA] = []
   \<and> check_once ((AtomStatusWatcher FEED_URL 60)\<lparr>seen_keys := {''A|t1''}\<rparr>)
        (replying (ok_response [entryB, entryA])) terminal =
       ((AtomStatusWatcher FEED_URL 60)\<lparr>seen_keys := {''A|t1'', ''B|t2''}\<rparr>, Inr True,
        [Accepted entryB])"
  by code_simp

section \<open>The validators\<close>

lemma process_entries_validators:
  "process_entries stdout st ch es = (st', r, evs) \<Longrightarrow>
   etag st' = etag st \<and> last_modified st' = last_modified st \<and>
   feed_url st' = feed_url st \<and> poll_interval st' = poll_interval st"
  by (drule process_entries_prefix) auto

lemma check_once_validators:
  assumes "check_once st session stdout = (st', r, evs)"
  shows "etag st' = etag (fst (fetch_if_changed st session))
    \<and> last_modified st' = last_modified (fst (fetch_if_changed st session))
    \<and> feed_url st' = feed_url st \<and> poll_interval st' = poll_interval st"
  using assms
proof (cases rule: check_once_cases)
  case (feed st1 entries)
  from process_entries_validators [OF feed(2)] fetch_if_changed_frame [OF feed(1)] feed(1)
  show ?thesis by simp
qed (simp_all add: fetch_if_changed_frame)

section \<open>The poll loop\<close>

declare run_forever.simps(2) [simp del]

lemma slept_append: "slept (xs @ ys) = slept xs @ slept ys"
  by (induction xs rule: slept.induct) simp_all

lemma logged_append: "logged (xs @ ys) = logged xs @ logged ys"
  by (induction xs rule: logged.induct) simp_all

lemma quiet_report:
  "report stdout p m = Inr evs \<Longrightarrow> slept evs = [] \<and> logged evs = []"
  by (auto simp: report_def split: option.splits if_splits)

lemma quiet_notify:
  "notify stdout e = Inr evs \<Longrightarrow> slept evs = [] \<and> logged evs = []"
  by (auto simp: notify_def dest: quiet_report split: prod.splits)

lemma quiet_process_entries:
  "process_entries stdout st ch es = (st', r, evs) \<Longrightarrow> slept evs = [] \<and> logged evs = []"
proof (induction es arbitrary: st ch st' r evs)
  case Nil
  then show ?case by simp
next
  case (Cons e es)
  show ?case
  proof (cases "entry_key e \<in> seen_keys st")
    case True
    with Cons.prems have "process_entries stdout st ch es = (st', r, evs)" by simp
    then show ?thesis by (rule Cons.IH)
  next
    case False
    let ?st1 = "st\<lparr>seen_keys := insert (entry_key e) (seen_keys st)\<rparr>"
    show ?thesis
    proof (cases "notify stdout e")
      case (Inl x)
      with Cons.prems False show ?thesis by auto
    next
      case (Inr shown)
      obtain st2 r2 evs2 where p: "process_entries stdout ?st1 True es = (st2, r2, evs2)"
        by (cases "process_entries stdout ?st1 True es") auto
      with Cons.prems False Inr have "evs = Accepted e # shown @ evs2" by simp
      with Cons.IH [OF p] quiet_notify [OF Inr] show ?thesis
        by (simp add: slept_append logged_append)
    qed
  qed
qed

lemma quiet_check_once:
  assumes "check_once st session stdout = (st', r, evs)"
  shows "slept evs = [] \<and> logged evs = []"
  using assms
proof (cases rule: check_once_cases)
  case (feed st1 entries)
  from quiet_process_entries [OF feed(2)] show ?thesis .
qed simp_all

lemma slept_handler_log [simp]: "slept (handler_log r) = []"
  by (simp add: handler_log_def split: sum.splits)

lemma logged_handler_log:
  "r \<noteq> Inl CancelledError \<Longrightarrow> CancelledError \<notin> set (logged (handler_log r))"
  by (auto simp: handler_log_def split: sum.splits)

lemma run_forever_uncancelled:
  "\<forall>c \<in> set cs. \<forall>s. \<not> cancelled_in s c \<Longrightarrow>
   fst (snd (run_forever st cs)) = None
   \<and> slept (snd (snd (run_forever st cs))) = replicate (length cs) (poll_interval st)"
proof (induction cs arbitrary: st)
  case Nil
  then show ?case by simp
next
  case (Cons c cs)
  obtain st1 r1 evs where k: "check_once st (cyc_session c) (cyc_stdout c) = (st1, r1, evs)"
    by (cases "check_once st (cyc_session c) (cyc_stdout c)") auto
  from Cons.prems have "\<not> cancelled_in st c" by simp
  with k have n: "r1 \<noteq> Inl CancelledError" "cyc_sleep c \<noteq> CancelledAsleep"
    by (simp_all add: cancelled_in_def)
  from Cons.prems have "\<forall>c \<in> set cs. \<forall>s. \<not> cancelled_in s c" by simp
  from Cons.IH [OF this, of st1]
  have ih: "fst (snd (run_forever st1 cs)) = None"
    "slept (snd (snd (run_forever st1 cs))) = replicate (length cs) (poll_interval st1)"
    by simp_all
  from check_once_validators [OF k] have p: "poll_interval st1 = poll_interval st" by simp
  from quiet_check_once [OF k] have q: "slept evs = []" by simp
  from run_forever_step [OF k, of cs] n
  have "run_forever st (c # cs) =
      (fst (run_forever st1 cs), fst (snd (run_forever st1 cs)),
       evs @ handler_log r1 @ [Slept (poll_interval st1)] @ snd (snd (run_forever st1 cs)))"
    by (simp add: split_beta)
  with ih p q show ?case
    by (simp add: slept_append)
qed

lemma run_forever_cancelled:
  assumes "cancelled_in st c"
  shows "fst (snd (run_forever st (c # cs))) = Some CancelledError"
    and "run_forever st (c # cs) = run_forever st [c]"
    and "slept (snd (snd (run_forever st (c # cs)))) = []"
proof -
  obtain st1 r1 evs where k: "check_once st (cyc_session c) (cyc_stdout c) = (st1, r1, evs)"
    by (cases "check_once st (cyc_session c) (cyc_stdout c)") auto
  with assms have n: "r1 = Inl CancelledError \<or> cyc_sleep c = CancelledAsleep"
    by (simp add: cancelled_in_def)
  from quiet_check_once [OF k] have q: "slept evs = []" by simp
  from run_forever_step [OF k, of cs] n
  have 1: "run_forever st (c # cs) =
      (st1, Some CancelledError, if r1 = Inl CancelledError then evs else evs @ handler_log r1)"
    by auto
  from run_forever_step [OF k, of "[]"] n
  have 2: "run_forever st [c] =
      (st1, Some CancelledError, if r1 = Inl CancelledError then evs else evs @ handler_log r1)"
    by auto
  from 1 show "fst (snd (run_forever st (c # cs))) = Some CancelledError" by simp
  from 1 2 show "run_forever st (c # cs) = run_forever st [c]" by simp
  from 1 q show "slept (snd (snd (run_forever st (c # cs)))) = []"
    by (simp add: slept_append)
qed

lemma run_forever_exit:
  "fst (snd (run_forever st cs)) = Some x \<Longrightarrow> x = CancelledError"
proof (induction cs arbitrary: st)
  case Nil
  then show ?case by simp
next
  case (Cons c cs)
  obtain st1 r1 evs where k: "check_once st (cyc_session c) (cyc_stdout c) = (st1, r1, evs)"
    by (cases "check_once st (cyc_session c) (cyc_stdout c)") auto
  show ?case
  proof (cases "r1 = Inl CancelledError \<or> cyc_sleep c = CancelledAsleep")
    case True
    with run_forever_step [OF k, of cs]
    have "fst (snd (run_forever st (c # cs))) = Some CancelledError" by auto
    with Cons.prems show ?thesis by simp
  next
    case False
    with run_forever_step [OF k, of cs] Cons.prems
    have "fst (snd (run_forever st1 cs)) = Some x"
      by (simp add: split_beta)
    then show ?thesis by (rule Cons.IH)
  qed
qed

lemma run_forever_never_logs_cancellation:
  "CancelledError \<notin> set (logged (snd (snd (run_forever st cs))))"
proof (induction cs arbitrary: st)
  case Nil
  then show ?case by simp
next
  case (Cons c cs)
  obtain st1 r1 evs where k: "check_once st (cyc_session c) (cyc_stdout c) = (st1, r1, evs)"
    by (cases "check_once st (cyc_session c) (cyc_stdout c)") auto
  from quiet_check_once [OF k] have q: "logged evs = []" by simp
  show ?case
  proof (cases "r1 = Inl CancelledError")
    case True
    with run_forever_step [OF k, of cs] q show ?thesis by simp
  next
    case False
    note l = logged_handler_log [OF False]
    show ?thesis
    proof (cases "cyc_sleep c = CancelledAsleep")
      case True
      with run_forever_step [OF k, of cs] False q l show ?thesis
        by (simp add: logged_append)
    next
      case sl: False
      with run_forever_step [OF k, of cs] False
      have "run_forever st (c # cs) =
          (fst (run_forever st1 cs), fst (snd (run_forever st1 cs)),
           evs @ handler_log r1 @ [Slept (poll_interval st1)] @ snd (snd (run_forever st1 cs)))"
        by (simp add: split_beta)
      with q l Cons.IH [of st1] show ?thesis
        by (simp add: logged_append)
    qed
  qed
qed

lemma check_once_raising:
  "check_once s (raising e) stdout = (s, Inl e, [])"
  by (simp add: check_once_def fetch_if_changed_def raising_def)

lemma report_raises:
  "report stdout product message = Inl x \<Longrightarrow> \<exists>p m. stdout p m = Some x"
  by (auto simp: report_def split: option.splits if_splits)

lemma notify_raises:
  "notify stdout e = Inl x \<Longrightarrow> \<exists>p m. stdout p m = Some x"
  by (auto simp: notify_def dest: report_raises split: prod.splits)

lemma check_once_replying_not_cancelled:
  assumes "resp_text resp \<noteq> Inl CancelledError"
    and "\<forall>p m. stdout p m \<noteq> Some CancelledError"
  shows "fst (snd (check_once s (replying resp) stdout)) \<noteq> Inl CancelledError"
proof
  assume c: "fst (snd (check_once s (replying resp) stdout)) = Inl CancelledError"
  obtain st' evs where k: "check_once s (replying resp) stdout = (st', Inl CancelledError, evs)"
    using c by (cases "check_once s (replying resp) stdout") auto
  then show False
  proof (cases rule: check_once_cases)
    case (failed e)
    with assms(1) show ?thesis
      by (auto simp: fetch_if_changed_def replying_def Let_def split: sum.splits if_splits)
  next
    case not_modified
    then show ?thesis by simp
  next
    case malformed
    then show ?thesis by simp
  next
    case (feed st1 entries)
    from process_entries_failure [OF feed(2)] notify_raises assms(2) show ?thesis by blast
  qed
qed

lemma failing_cycles_uncancelled:
  "\<forall>c \<in> set failing_cycles. \<forall>s. \<not> cancelled_in s c"
  by (simp add: failing_cycles_def stuck_output_cycle_def cancelled_in_def check_once_raising
      check_once_replying_not_cancelled server_error_response_def broken_response_def
      ok_response_def terminal_def closed_pipe_def)

section \<open>The classifier against its contract\<close>

lemma str_contains_iff: "str_contains n h \<longleftrightarrow> (\<exists>p s. h = p @ n @ s)"
proof (induction h)
  case Nil
  then show ?case by simp
next
  case (Cons c cs)
  show ?case
  proof
    assume "str_contains n (c # cs)"
    then consider "prefix n (c # cs)" | "str_contains n cs" by auto
    then show "\<exists>p s. c # cs = p @ n @ s"
    proof cases
      case 1
      then obtain s where "c # cs = n @ s" by (auto simp: prefix_def)
      then have "c # cs = [] @ n @ s" by simp
      then show ?thesis by blast
    next
      case 2
      with Cons obtain p s where "cs = p @ n @ s" by blast
      then have "c # cs = (c # p) @ n @ s" by simp
      then show ?thesis by blast
    qed
  next
    assume "\<exists>p s. c # cs = p @ n @ s"
    then obtain p s where e: "c # cs = p @ n @ s" by blast
    show "str_contains n (c # cs)"
    proof (cases p)
      case Nil
      with e have "prefix n (c # cs)" by (simp add: prefix_def)
      then show ?thesis by simp
    next
      case (Cons d p')
      with e have "cs = p' @ n @ s" by simp
      with Cons.IH have "str_contains n cs" by blast
      then show ?thesis by simp
    qed
  qed
qed

lemma lower_char_idem: "lower_char (lower_char c) = lower_char c"
proof -
  have "of_char c < (256 :: nat)" by (rule nat_of_char_less_256)
  then show ?thesis
    by (auto simp: lower_char_def Let_def)
qed

lemma lower_idem: "lower (lower s) = lower s"
  by (simp add: lower_def lower_char_idem)

lemma needles_lowercase: "\<forall>(needle, label) \<in> set PRODUCT_PATTERNS. lower needle = needle"
  by code_simp

lemma api_lowercase: "lower ''api'' = ''api''"
  by code_simp

lemma scan_patterns_find:
  "scan_patterns ps full_text =
     map_option snd (find (\<lambda>(needle, label). str_contains needle full_text) ps)"
  by (induction ps full_text rule: scan_patterns.induct) simp_all

lemma find_ci_contains:
  "find (\<lambda>(needle, label). ci_contains needle (lower s)) PRODUCT_PATTERNS =
   find (\<lambda>(needle, label). str_contains needle (lower s)) PRODUCT_PATTERNS"
proof (rule find_cong)
  show "PRODUCT_PATTERNS = PRODUCT_PATTERNS" by (rule refl)
next
  fix x assume "x \<in> set PRODUCT_PATTERNS"
  with needles_lowercase have "lower (fst x) = fst x" by (cases x) auto
  then show "(case x of (needle, label) \<Rightarrow> ci_contains needle (lower s))
      = (case x of (needle, label) \<Rightarrow> str_contains needle (lower s))"
    by (cases x) (simp add: ci_contains_def lower_idem)
qed

section \<open>A label always comes with a message\<close>













section \<open>Claims\<close>

text \<open>
  C1. The identity key of an entry is empty exactly when both its id and its timestamp
  are empty. Over any run of the poll loop, from any state, at most one entry with the
  empty key is found new (its key added, the entry classified), hence at most one is
  reported; none is when the empty key is already in \<open>seen_keys\<close>, and the empty key is in
  \<open>seen_keys\<close> once one was found new. Within a batch the first entry with the empty key
  wins: when the loop over the batch returns, the entries with the empty key found new are
  the first one of the batch, or none when the key was seen before, and every later one is
  skipped; when the loop is ended by an exception of the print, they are still none when
  the key was seen before, and else the first one of the batch or none.
\<close>

theorem C1_empty_key_reported_once:
  "(entry_key e = [] \<longleftrightarrow> entry_id e = [] \<and> updated e = [])
   \<and> (run_forever st cs = (st', r, tr) \<longrightarrow>
        length (filter (\<lambda>e. entry_key e = []) (accepted tr)) \<le> 1
        \<and> length (filter (\<lambda>e. entry_key e = []) (reported tr)) \<le> 1
        \<and> ([] \<in> seen_keys st \<longrightarrow> filter (\<lambda>e. entry_key e = []) (accepted tr) = [])
        \<and> (filter (\<lambda>e. entry_key e = []) (accepted tr) \<noteq> [] \<longrightarrow> [] \<in> seen_keys st'))
   \<and> (process_entries stdout st0 ch es = (st1, Inr ch1, evs) \<longrightarrow>
        filter (\<lambda>e. entry_key e = []) (accepted evs) =
          (if [] \<in> seen_keys st0 then [] else take 1 (filter (\<lambda>e. entry_key e = []) es))
        \<and> ([] \<in> seen_keys st1 \<longleftrightarrow> [] \<in> seen_keys st0 \<or> (\<exists>e \<in> set es. entry_key e = [])))
   \<and> (process_entries stdout st0 ch es = (st2, r2, evs2) \<longrightarrow>
        ([] \<in> seen_keys st0 \<longrightarrow> filter (\<lambda>e. entry_key e = []) (accepted evs2) = [])
        \<and> (filter (\<lambda>e. entry_key e = []) (accepted evs2) = []
           \<or> filter (\<lambda>e. entry_key e = []) (accepted evs2) =
               take 1 (filter (\<lambda>e. entry_key e = []) es))
        \<and> ([] \<in> seen_keys st2 \<longleftrightarrow>
             [] \<in> seen_keys st0 \<or> filter (\<lambda>e. entry_key e = []) (accepted evs2) \<noteq> []))"
proof (intro conjI impI)
  show "entry_key e = [] \<longleftrightarrow> entry_id e = [] \<and> updated e = []"
    by (rule entry_key_empty)
next
  assume run: "run_forever st cs = (st', r, tr)"
  note k = run_forever_keys [OF run]
  from k have "distinct (map entry_key (accepted tr))" by simp
  then show a: "length (filter (\<lambda>e. entry_key e = []) (accepted tr)) \<le> 1"
    by (rule distinct_keys_at_most_one)
  have "length (filter (\<lambda>e. entry_key e = []) (reported tr))
      \<le> length (filter (\<lambda>e. entry_key e = []) (accepted tr))"
    by (rule subseq_filter_length) (rule reported_subseq)
  with a show "length (filter (\<lambda>e. entry_key e = []) (reported tr)) \<le> 1"
    by simp
  show "filter (\<lambda>e. entry_key e = []) (accepted tr) = []" if "[] \<in> seen_keys st"
  proof -
    from k have "entry_key ` set (accepted tr) \<inter> seen_keys st = {}" by simp
    with that have "\<forall>x \<in> set (accepted tr). entry_key x \<noteq> []" by (metis IntI empty_iff image_eqI)
    then show ?thesis by (simp add: filter_empty_conv)
  qed
  show "[] \<in> seen_keys st'" if "filter (\<lambda>e. entry_key e = []) (accepted tr) \<noteq> []"
  proof -
    from that obtain x where "x \<in> set (accepted tr)" "entry_key x = []"
      by (auto simp: filter_empty_conv)
    then have "[] \<in> entry_key ` set (accepted tr)" by (metis image_eqI)
    with k show ?thesis by simp
  qed
next
  assume p: "process_entries stdout st0 ch es = (st1, Inr ch1, evs)"
  from process_entries_filterNew [OF p]
  have a: "accepted evs = fst (filterNew es (seen_keys st0))"
    and s: "st1 = st0\<lparr>seen_keys := snd (filterNew es (seen_keys st0))\<rparr>"
    by simp_all
  show "filter (\<lambda>e. entry_key e = []) (accepted evs) =
      (if [] \<in> seen_keys st0 then [] else take 1 (filter (\<lambda>e. entry_key e = []) es))"
    by (simp only: a filterNew_first_wins)
  from s have "seen_keys st1 = seen_keys st0 \<union> entry_key ` set es"
    by (simp add: filterNew_seen_all)
  moreover have "[] \<in> entry_key ` set es \<longleftrightarrow> (\<exists>e \<in> set es. entry_key e = [])"
    by (metis image_iff)
  ultimately show "[] \<in> seen_keys st1 \<longleftrightarrow> [] \<in> seen_keys st0 \<or> (\<exists>e \<in> set es. entry_key e = [])"
    by simp
next
  assume p: "process_entries stdout st0 ch es = (st2, r2, evs2)"
  from process_entries_prefix [OF p] obtain n
    where a: "accepted evs2 = fst (filterNew (take n es) (seen_keys st0))"
    by blast
  have f: "filter (\<lambda>e. entry_key e = []) (accepted evs2) =
      (if [] \<in> seen_keys st0 then [] else take 1 (filter (\<lambda>e. entry_key e = []) (take n es)))"
    by (simp only: a filterNew_first_wins)
  then show "filter (\<lambda>e. entry_key e = []) (accepted evs2) = []" if "[] \<in> seen_keys st0"
    using that by simp
  from f take1_filter_take [of "\<lambda>e. entry_key e = []" n es]
  show "filter (\<lambda>e. entry_key e = []) (accepted evs2) = []
     \<or> filter (\<lambda>e. entry_key e = []) (accepted evs2) =
         take 1 (filter (\<lambda>e. entry_key e = []) es)"
    by (cases "[] \<in> seen_keys st0") auto
  from process_entries_keys(1) [OF p]
  have k: "seen_keys st2 = seen_keys st0 \<union> entry_key ` set (accepted evs2)" .
  have "[] \<in> entry_key ` set (accepted evs2) \<longleftrightarrow>
      filter (\<lambda>e. entry_key e = []) (accepted evs2) \<noteq> []"
    by (simp add: filter_empty_conv image_iff) metis
  with k show "[] \<in> seen_keys st2 \<longleftrightarrow>
      [] \<in> seen_keys st0 \<or> filter (\<lambda>e. entry_key e = []) (accepted evs2) \<noteq> []"
    by simp
qed

theorem C1_witness:
  "accepted (snd (snd (run_forever (AtomStatusWatcher FEED_URL 60) blank_cycles))) = [blank1]
   \<and> entry_key blank1 = [] \<and> entry_key blank2 = []
   \<and> length (filter (\<lambda>e. entry_key e = [])
         (accepted (snd (snd (run_forever (AtomStatusWatcher FEED_URL 60) blank_cycles))))) \<le> 1
   \<and> process_entries terminal (AtomStatusWatcher FEED_URL 60) False [blank1, blank2] =
       ((AtomStatusWatcher FEED_URL 60)\<lparr>seen_keys := {[]}\<rparr>, Inr True,
        [Accepted blank1, Printed ''OpenAI API'' ''first''])
   \<and> filter (\<lambda>e. entry_key e = [])
         (accepted [Accepted blank1, Printed ''OpenAI API'' ''first'']) =
       (if [] \<in> seen_keys (AtomStatusWatcher FEED_URL 60) then []
        else take 1 (filter (\<lambda>e. entry_key e = []) [blank1, blank2]))
   \<and> process_entries closed_pipe (AtomStatusWatcher FEED_URL 60) False [blank1, blank2] =
       ((AtomStatusWatcher FEED_URL 60)\<lparr>seen_keys := {[]}\<rparr>, Inl OSError, [Accepted blank1])
   \<and> ([] \<in> seen_keys ((AtomStatusWatcher FEED_URL 60)\<lparr>seen_keys := {[]}\<rparr>) \<longleftrightarrow>
        [] \<in> seen_keys (AtomStatusWatcher FEED_URL 60)
        \<or> filter (\<lambda>e. entry_key e = []) (accepted [Accepted blank1]) \<noteq> [])"
proof -
  let ?w = "AtomStatusWatcher FEED_URL 60"
  let ?w1 = "?w\<lparr>seen_keys := {[]}\<rparr>"
  let ?run = "run_forever ?w blank_cycles"
  let ?evs = "[Accepted blank1, Printed ''OpenAI API'' ''first'']"
  have 1: "accepted (snd (snd ?run)) = [blank1]" by code_simp
  have 2: "entry_key blank1 = []" and b2: "entry_key blank2 = []" by code_simp+
  have p: "process_entries terminal ?w False [blank1, blank2] = (?w1, Inr True, ?evs)"
    by code_simp
  have q: "process_entries closed_pipe ?w False [blank1, blank2] =
      (?w1, Inl OSError, [Accepted blank1])"
    by code_simp
  have "?run = (fst ?run, fst (snd ?run), snd (snd ?run))" by simp
  with C1_empty_key_reported_once [of blank1 ?w blank_cycles "fst ?run" "fst (snd ?run)"
      "snd (snd ?run)" terminal ?w False "[blank1, blank2]" ?w1 True ?evs ?w1 "Inr True" ?evs]
  have 3: "length (filter (\<lambda>e. entry_key e = []) (accepted (snd (snd ?run)))) \<le> 1"
    by blast
  from C1_empty_key_reported_once [of blank1 ?w blank_cycles "fst ?run" "fst (snd ?run)"
      "snd (snd ?run)" terminal ?w False "[blank1, blank2]" ?w1 True ?evs ?w1 "Inr True" ?evs] p
  have 4: "filter (\<lambda>e. entry_key e = []) (accepted ?evs) =
      (if [] \<in> seen_keys ?w then []
       else take 1 (filter (\<lambda>e. entry_key e = []) [blank1, blank2]))"
    by blast
  from C1_empty_key_reported_once [of blank1 ?w blank_cycles "fst ?run" "fst (snd ?run)"
      "snd (snd ?run)" closed_pipe ?w False "[blank1, blank2]" ?w1 True ?evs
      ?w1 "Inl OSError" "[Accepted blank1]"] q
  have 5: "[] \<in> seen_keys ?w1 \<longleftrightarrow>
      [] \<in> seen_keys ?w \<or> filter (\<lambda>e. entry_key e = []) (accepted [Accepted blank1]) \<noteq> []"
    by blast
  from 1 2 b2 3 4 5 p q show ?thesis by (intro conjI)
qed

text \<open>
  C2. For every title and body, \<^verbatim>\<open>detect_product_and_message\<close> returns what the contract
  \<open>classify\<close> says: with the haystack the lowercased concatenation of title, one space and
  body, the label of the first pair of the table whose needle is a case-insensitive
  substring of the haystack; the generic label \<^verbatim>\<open>OpenAI API\<close> when no pair matches and
  \<^verbatim>\<open>api\<close> occurs in the haystack; no result otherwise; and with a label the message is the
  trimmed body if not empty, else the trimmed title, else the empty string. The test
  \<open>str_contains\<close> is the substring relation.
\<close>

theorem C2_classifier:
  "detect_product_and_message ttl body =
     (case classify ttl body of
        Some (label, message) \<Rightarrow> (Some label, Some message)
      | None \<Rightarrow> (None, None))
   \<and> (str_contains needle haystack \<longleftrightarrow> (\<exists>p s. haystack = p @ needle @ s))"
proof
  let ?h = "lower (ttl @ '' '' @ body)"
  let ?m = "str_or (strip body) (strip ttl)"
  have m: "(if strip body \<noteq> [] then strip body else if strip ttl \<noteq> [] then strip ttl else [])
      = ?m"
    by (simp add: str_or_def)
  have a: "ci_contains ''api'' ?h = str_contains ''api'' ?h"
    by (simp only: ci_contains_def api_lowercase lower_idem)
  show "detect_product_and_message ttl body =
     (case classify ttl body of
        Some (label, message) \<Rightarrow> (Some label, Some message)
      | None \<Rightarrow> (None, None))"
  proof (cases "find (\<lambda>(needle, label). str_contains needle ?h) PRODUCT_PATTERNS")
    case None
    then have "scan_patterns PRODUCT_PATTERNS ?h = None"
      by (simp add: scan_patterns_find)
    with None show ?thesis
      unfolding detect_product_and_message_def classify_def Let_def find_ci_contains m a
      by simp
  next
    case (Some x)
    then have "scan_patterns PRODUCT_PATTERNS ?h = Some (snd x)"
      by (simp add: scan_patterns_find)
    with Some show ?thesis
      unfolding detect_product_and_message_def classify_def Let_def find_ci_contains m a
      by (cases x) simp
  qed
next
  show "str_contains needle haystack \<longleftrightarrow> (\<exists>p s. haystack = p @ needle @ s)"
    by (rule str_contains_iff)
qed

theorem C2_witness:
  "detect_product_and_message ''Chat Completions degraded'' ''investigating''
     = (Some ''OpenAI API - Chat Completions'', Some ''investigating'')
   \<and> detect_product_and_message ''Unrelated outage'' ''details'' = (None, None)
   \<and> detect_product_and_message ''Partial API issue'' [] = (Some ''OpenAI API'', Some ''Partial API issue'')
   \<and> detect_product_and_message ''OpenAI API: Embeddings slow'' '' '' 
       = (Some ''OpenAI API - Embeddings'', Some ''OpenAI API: Embeddings slow'')"
proof -
  have "classify ''Chat Completions degraded'' ''investigating''
      = Some (''OpenAI API - Chat Completions'', ''investigating'')"
    and "classify ''Unrelated outage'' ''details'' = None"
    and "classify ''Partial API issue'' [] = Some (''OpenAI API'', ''Partial API issue'')"
    and "classify ''OpenAI API: Embeddings slow'' '' ''
      = Some (''OpenAI API - Embeddings'', ''OpenAI API: Embeddings slow'')"
    by code_simp+
  with C2_classifier [of "''Chat Completions degraded''" "''investigating''"]
    C2_classifier [of "''Unrelated outage''" "''details''"]
    C2_classifier [of "''Partial API issue''" "[]"]
    C2_classifier [of "''OpenAI API: Embeddings slow''" "'' ''"]
  show ?thesis by simp
qed

text \<open>
  C3. For a cycle whose fetch returns a document with the entries \<open>entries\<close>, newest
  first, and for every state of \<open>seen_keys\<close>. When the cycle returns, the entries found new
  are those the contract \<open>filterNew\<close> keeps on the reversed list, that is the entries taken
  oldest first, each skipped when its key is already seen and else kept with its key added;
  they appear in that chronological order, with distinct keys, the keys added are exactly
  the keys of the document not seen before, and the cycle returns \<open>True\<close> exactly when
  some entry was new. When the cycle is ended by an exception of the print, the same holds
  of the entries up to and including the one whose notification raised, and no later entry
  was looked at. The cycle returns whenever no notification of the document raises. Thus
  for two cycles on a watcher that has seen nothing and an output that takes every
  notification, with entries of keys A, B and then A, C in chronological order (and A, B, C
  distinct), the entries found new are those of keys A, B in the first cycle and the one
  of key C in the second.
\<close>

theorem C3_dedup_oldest_first:
  "(fetch_if_changed st session = (st1, Inr (Some (Feed entries))) \<and>
    check_once st session stdout = (st', Inr changed, evs) \<longrightarrow>
      accepted evs = fst (filterNew (rev entries) (seen_keys st))
      \<and> seen_keys st' = snd (filterNew (rev entries) (seen_keys st))
      \<and> subseq (accepted evs) (rev entries)
      \<and> distinct (map entry_key (accepted evs))
      \<and> entry_key ` set (accepted evs) = entry_key ` set entries - seen_keys st
      \<and> seen_keys st' = seen_keys st \<union> entry_key ` set entries
      \<and> changed = (accepted evs \<noteq> []))
   \<and> (fetch_if_changed st session = (st1, Inr (Some (Feed entries))) \<and>
      check_once st session stdout = (st2, Inl x, evs2) \<longrightarrow>
      (\<exists>n < length entries.
         accepted evs2 = fst (filterNew (take (Suc n) (rev entries)) (seen_keys st))
         \<and> seen_keys st2 = snd (filterNew (take (Suc n) (rev entries)) (seen_keys st))
         \<and> last (accepted evs2) = rev entries ! n
         \<and> notify stdout (rev entries ! n) = Inl x)
      \<and> subseq (accepted evs2) (rev entries)
      \<and> distinct (map entry_key (accepted evs2))
      \<and> entry_key ` set (accepted evs2) \<inter> seen_keys st = {}
      \<and> seen_keys st2 = seen_keys st \<union> entry_key ` set (accepted evs2))
   \<and> (fetch_if_changed st session = (st1, Inr (Some (Feed entries))) \<and>
      (\<forall>e \<in> set entries. \<exists>shown. notify stdout e = Inr shown) \<longrightarrow>
      (\<exists>st3 changed3 evs3. check_once st session stdout = (st3, Inr changed3, evs3)))
   \<and> (seen_keys st0 = {} \<and> entry_key a \<noteq> entry_key b \<and> entry_key c \<noteq> entry_key a \<and>
      entry_key c \<noteq> entry_key b \<and> entry_key a' = entry_key a \<longrightarrow>
        accepted (snd (snd (check_once st0 (replying (ok_response [b, a])) terminal))) = [a, b]
        \<and> accepted (snd (snd (check_once
              (fst (check_once st0 (replying (ok_response [b, a])) terminal))
              (replying (ok_response [c, a'])) terminal))) = [c])"
proof (intro conjI impI)
  assume h: "fetch_if_changed st session = (st1, Inr (Some (Feed entries))) \<and>
    check_once st session stdout = (st', Inr changed, evs)"
  then have f: "fetch_if_changed st session = (st1, Inr (Some (Feed entries)))"
    and c: "check_once st session stdout = (st', Inr changed, evs)" by simp_all
  note k = check_once_feed [OF f c]
  note a = k(2)
  show "accepted evs = fst (filterNew (rev entries) (seen_keys st))" by (rule a)
  from k(1) show "seen_keys st' = snd (filterNew (rev entries) (seen_keys st))" by simp
  show "subseq (accepted evs) (rev entries)"
    by (simp only: a filterNew_subseq)
  show "distinct (map entry_key (accepted evs))"
    by (simp only: a filterNew_distinct)
  show "entry_key ` set (accepted evs) = entry_key ` set entries - seen_keys st"
    by (simp only: a filterNew_keys set_rev)
  from k(1) show "seen_keys st' = seen_keys st \<union> entry_key ` set entries"
    by (simp add: filterNew_seen_all)
  show "changed = (accepted evs \<noteq> [])" by (rule k(3))
next
  assume h: "fetch_if_changed st session = (st1, Inr (Some (Feed entries))) \<and>
      check_once st session stdout = (st2, Inl x, evs2)"
  then have f: "fetch_if_changed st session = (st1, Inr (Some (Feed entries)))"
    and c: "check_once st session stdout = (st2, Inl x, evs2)" by simp_all
  from f c have p: "process_entries stdout st1 False (rev entries) = (st2, Inl x, evs2)"
    by (simp add: check_once_def)
  from f have s: "seen_keys st1 = seen_keys st"
    by (simp add: fetch_if_changed_frame)
  from process_entries_raised [OF p] s
  show "\<exists>n < length entries.
         accepted evs2 = fst (filterNew (take (Suc n) (rev entries)) (seen_keys st))
         \<and> seen_keys st2 = snd (filterNew (take (Suc n) (rev entries)) (seen_keys st))
         \<and> last (accepted evs2) = rev entries ! n
         \<and> notify stdout (rev entries ! n) = Inl x"
    by auto
  from process_entries_keys [OF p] s
  show "subseq (accepted evs2) (rev entries)"
    and "distinct (map entry_key (accepted evs2))"
    and "entry_key ` set (accepted evs2) \<inter> seen_keys st = {}"
    and "seen_keys st2 = seen_keys st \<union> entry_key ` set (accepted evs2)"
    by simp_all
next
  assume h: "fetch_if_changed st session = (st1, Inr (Some (Feed entries))) \<and>
      (\<forall>e \<in> set entries. \<exists>shown. notify stdout e = Inr shown)"
  then have f: "fetch_if_changed st session = (st1, Inr (Some (Feed entries)))"
    and n: "\<forall>e \<in> set (rev entries). \<exists>shown. notify stdout e = Inr shown" by simp_all
  from process_entries_returns [OF n, of st1 False] f
  show "\<exists>st3 changed3 evs3. check_once st session stdout = (st3, Inr changed3, evs3)"
    by (simp add: check_once_def)
next
  assume "seen_keys st0 = {} \<and> entry_key a \<noteq> entry_key b \<and> entry_key c \<noteq> entry_key a \<and>
      entry_key c \<noteq> entry_key b \<and> entry_key a' = entry_key a"
  then have h: "seen_keys st0 = {}" "entry_key b \<noteq> entry_key a" "entry_key c \<noteq> entry_key a"
      "entry_key c \<noteq> entry_key b" "entry_key a' = entry_key a"
    by auto
  let ?s1 = "replying (ok_response [b, a])"
  let ?s2 = "replying (ok_response [c, a'])"
  from h show 1: "accepted (snd (snd (check_once st0 ?s1 terminal))) = [a, b]"
    by (simp add: check_once_terminal_accepted)
  from h have k: "seen_keys (fst (check_once st0 ?s1 terminal)) = {entry_key a, entry_key b}"
    by (simp add: check_once_terminal_keys insert_commute)
  from h k show "accepted (snd (snd (check_once (fst (check_once st0 ?s1 terminal)) ?s2 terminal))) = [c]"
    by (simp add: check_once_terminal_accepted)
qed

theorem C3_witness:
  "accepted (snd (snd (check_once (AtomStatusWatcher FEED_URL 60)
       (replying (ok_response [entryB, entryA])) terminal))) = [entryA, entryB]
   \<and> accepted (snd (snd (check_once
       (fst (check_once (AtomStatusWatcher FEED_URL 60) (replying (ok_response [entryB, entryA]))
          terminal))
       (replying (ok_response [entryC, entryA])) terminal))) = [entryC]
   \<and> seen_keys (fst (check_once
       (fst (check_once (AtomStatusWatcher FEED_URL 60) (replying (ok_response [entryB, entryA]))
          terminal))
       (replying (ok_response [entryC, entryA])) terminal)) = {''A|t1'', ''B|t2'', ''C|t3''}
   \<and> check_once (AtomStatusWatcher FEED_URL 60) (replying (ok_response [entryB, entryA])) terminal =
       ((AtomStatusWatcher FEED_URL 60)\<lparr>seen_keys := {''A|t1'', ''B|t2''}\<rparr>, Inr True,
        [Accepted entryA, Printed ''OpenAI API - Files'' ''investigating'', Accepted entryB])
   \<and> fst (filterNew (rev [entryB, entryA]) {}) = [entryA, entryB]
   \<and> check_once (AtomStatusWatcher FEED_URL 60) (replying (ok_response [entryB, entryA]))
         closed_pipe =
       ((AtomStatusWatcher FEED_URL 60)\<lparr>seen_keys := {''A|t1''}\<rparr>, Inl OSError, [Accepted entryA])
   \<and> subseq [entryA] (rev [entryB, entryA])
   \<and> (\<exists>st3 changed3 evs3. check_once (AtomStatusWatcher FEED_URL 60)
         (replying (ok_response [entryB, entryA])) terminal = (st3, Inr changed3, evs3))"
proof -
  let ?w = "AtomStatusWatcher FEED_URL 60"
  let ?s = "replying (ok_response [entryB, entryA])"
  have k: "seen_keys ?w = {} \<and> entry_key entryA \<noteq> entry_key entryB \<and>
      entry_key entryC \<noteq> entry_key entryA \<and> entry_key entryC \<noteq> entry_key entryB \<and>
      entry_key entryA = entry_key entryA"
    by code_simp
  have s: "seen_keys (fst (check_once (fst (check_once ?w ?s terminal))
       (replying (ok_response [entryC, entryA])) terminal)) = {''A|t1'', ''B|t2'', ''C|t3''}"
    by code_simp
  have f: "fetch_if_changed ?w ?s = (?w, Inr (Some (Feed [entryB, entryA])))"
    by (rule fetch_replying_ok)
  have r: "check_once ?w ?s terminal =
       (?w\<lparr>seen_keys := {''A|t1'', ''B|t2''}\<rparr>, Inr True,
        [Accepted entryA, Printed ''OpenAI API - Files'' ''investigating'', Accepted entryB])"
    by code_simp
  have x: "check_once ?w ?s closed_pipe =
       (?w\<lparr>seen_keys := {''A|t1''}\<rparr>, Inl OSError, [Accepted entryA])"
    by code_simp
  note ret = C3_dedup_oldest_first [of ?w ?s ?w "[entryB, entryA]" terminal
      "?w\<lparr>seen_keys := {''A|t1'', ''B|t2''}\<rparr>" True
      "[Accepted entryA, Printed ''OpenAI API - Files'' ''investigating'', Accepted entryB]"
      "?w" OSError "[]" ?w entryA entryB entryC entryA]
  note exc = C3_dedup_oldest_first [of ?w ?s ?w "[entryB, entryA]" closed_pipe
      "?w" True "[]" "?w\<lparr>seen_keys := {''A|t1''}\<rparr>" OSError "[Accepted entryA]"
      ?w entryA entryB entryC entryA]
  have sk: "seen_keys ?w = {}" by (simp add: AtomStatusWatcher_def)
  from ret f r
  have "accepted [Accepted entryA, Printed ''OpenAI API - Files'' ''investigating'', Accepted entryB] =
      fst (filterNew (rev [entryB, entryA]) (seen_keys ?w))"
    by blast
  from this [symmetric] have 1: "fst (filterNew (rev [entryB, entryA]) {}) = [entryA, entryB]"
    by (simp only: sk accepted.simps)
  from exc f x have "subseq (accepted [Accepted entryA]) (rev [entryB, entryA])"
    by blast
  then have 2: "subseq [entryA] (rev [entryB, entryA])"
    by (simp only: accepted.simps)
  from ret k have 3: "accepted (snd (snd (check_once ?w ?s terminal))) = [entryA, entryB]
    \<and> accepted (snd (snd (check_once (fst (check_once ?w ?s terminal))
       (replying (ok_response [entryC, entryA])) terminal))) = [entryC]"
    by blast
  have n: "\<forall>e \<in> set [entryB, entryA]. \<exists>shown. notify terminal e = Inr shown"
    by (simp add: notify_terminal)
  from ret f n
  have 4: "\<exists>st3 changed3 evs3. check_once ?w ?s terminal = (st3, Inr changed3, evs3)"
    by blast
  from 1 2 3 4 s r x show ?thesis by blast
qed




text \<open>
  C5. When no iteration is cancelled, the loop is still running after any number of
  iterations, whatever errors the cycles raised, and has slept the poll interval once per
  iteration. An error other than a cancellation raised by a cycle, in the fetch, in the
  parsing or in the loop over the entries, is logged, the loop sleeps the poll interval and
  goes on with the next iteration. A cancellation, in the
  cycle or in the sleep, ends the loop at once with \<open>CancelledError\<close> propagated: no later
  iteration runs and no sleep completes. The loop ends in no other way, and a cancellation
  is never logged.
\<close>

theorem C5_only_cancellation_ends_the_loop:
  "((\<forall>c \<in> set cs. \<forall>s. \<not> cancelled_in s c) \<longrightarrow>
      fst (snd (run_forever st cs)) = None
      \<and> slept (snd (snd (run_forever st cs))) = replicate (length cs) (poll_interval st))
   \<and> (check_once s1 (cyc_session c1) (cyc_stdout c1) = (s1', Inl e, evs) \<and> e \<noteq> CancelledError \<and>
      cyc_sleep c1 = Wakes \<longrightarrow>
        run_forever s1 (c1 # cs1) =
          (fst (run_forever s1' cs1), fst (snd (run_forever s1' cs1)),
           evs @ [Logged e, Slept (poll_interval s1)] @ snd (snd (run_forever s1' cs1))))
   \<and> (cancelled_in s2 c2 \<longrightarrow>
        fst (snd (run_forever s2 (c2 # cs2))) = Some CancelledError
        \<and> run_forever s2 (c2 # cs2) = run_forever s2 [c2]
        \<and> slept (snd (snd (run_forever s2 (c2 # cs2)))) = [])
   \<and> (fst (snd (run_forever s3 cs3)) = Some x \<longrightarrow>
        x = CancelledError \<and> (\<exists>c \<in> set cs3. \<exists>s. cancelled_in s c))
   \<and> CancelledError \<notin> set (logged (snd (snd (run_forever st cs))))"
proof (intro conjI impI)
  assume "\<forall>c \<in> set cs. \<forall>s. \<not> cancelled_in s c"
  from run_forever_uncancelled [OF this, of st]
  show "fst (snd (run_forever st cs)) = None"
    and "slept (snd (snd (run_forever st cs))) = replicate (length cs) (poll_interval st)"
    by simp_all
next
  assume h: "check_once s1 (cyc_session c1) (cyc_stdout c1) = (s1', Inl e, evs) \<and>
      e \<noteq> CancelledError \<and> cyc_sleep c1 = Wakes"
  then have k: "check_once s1 (cyc_session c1) (cyc_stdout c1) = (s1', Inl e, evs)" by simp
  from check_once_validators [OF k] have "poll_interval s1' = poll_interval s1" by simp
  with h show "run_forever s1 (c1 # cs1) =
      (fst (run_forever s1' cs1), fst (snd (run_forever s1' cs1)),
       evs @ [Logged e, Slept (poll_interval s1)] @ snd (snd (run_forever s1' cs1)))"
    by (simp add: run_forever.simps split_beta)
next
  assume c: "cancelled_in s2 c2"
  from run_forever_cancelled [OF c, of cs2]
  show "fst (snd (run_forever s2 (c2 # cs2))) = Some CancelledError"
    and "run_forever s2 (c2 # cs2) = run_forever s2 [c2]"
    and "slept (snd (snd (run_forever s2 (c2 # cs2)))) = []"
    by simp_all
next
  assume s: "fst (snd (run_forever s3 cs3)) = Some x"
  then show "x = CancelledError" by (rule run_forever_exit)
  show "\<exists>c \<in> set cs3. \<exists>s. cancelled_in s c"
  proof (rule ccontr)
    assume "\<not> (\<exists>c \<in> set cs3. \<exists>s. cancelled_in s c)"
    then have "\<forall>c \<in> set cs3. \<forall>s. \<not> cancelled_in s c" by blast
    from run_forever_uncancelled [OF this, of s3] s show False by simp
  qed
next
  show "CancelledError \<notin> set (logged (snd (snd (run_forever st cs))))"
    by (rule run_forever_never_logs_cancellation)
qed

theorem C5_witness:
  "run_forever (AtomStatusWatcher FEED_URL 60) failing_cycles =
     ((AtomStatusWatcher FEED_URL 60)\<lparr>etag := Some ''v2'', seen_keys := {''A|t1'', ''1|t1''}\<rparr>, None,
      [Logged (ClientResponseError 500), Slept 60, Logged ParseError, Slept 60,
       Logged ClientError, Slept 60, Accepted entryA, Logged OSError, Slept 60,
       Accepted quiet_entry, Slept 60])
   \<and> slept (snd (snd (run_forever (AtomStatusWatcher FEED_URL 60) failing_cycles))) =
       [60, 60, 60, 60, 60]
   \<and> run_forever (AtomStatusWatcher FEED_URL 60) [stuck_output_cycle] =
       ((AtomStatusWatcher FEED_URL 60)\<lparr>seen_keys := {''A|t1''}\<rparr>, None,
        [Accepted entryA, Logged OSError, Slept 60])
   \<and> run_forever (AtomStatusWatcher FEED_URL 60) (cancelled_cycle # failing_cycles) =
       (AtomStatusWatcher FEED_URL 60, Some CancelledError, [])
   \<and> run_forever (AtomStatusWatcher FEED_URL 60) (interrupted_cycle # failing_cycles) =
       (AtomStatusWatcher FEED_URL 60, Some CancelledError, [Logged ClientError])"
proof -
  let ?w = "AtomStatusWatcher FEED_URL 60"
  let ?w1 = "?w\<lparr>seen_keys := {''A|t1''}\<rparr>"
  have r: "run_forever ?w failing_cycles =
     (?w\<lparr>etag := Some ''v2'', seen_keys := {''A|t1'', ''1|t1''}\<rparr>, None,
      [Logged (ClientResponseError 500), Slept 60, Logged ParseError, Slept 60,
       Logged ClientError, Slept 60, Accepted entryA, Logged OSError, Slept 60,
       Accepted quiet_entry, Slept 60])"
    by code_simp
  have c1: "cancelled_in ?w cancelled_cycle" and c2: "cancelled_in ?w interrupted_cycle"
    by code_simp+
  have e1: "run_forever ?w [cancelled_cycle] = (?w, Some CancelledError, [])"
    and e2: "run_forever ?w [interrupted_cycle] = (?w, Some CancelledError, [Logged ClientError])"
    by code_simp+
  have l: "replicate (length failing_cycles) (poll_interval ?w) = [60, 60, 60, 60, 60]"
    by code_simp
  have k: "check_once ?w (cyc_session stuck_output_cycle) (cyc_stdout stuck_output_cycle) =
      (?w1, Inl OSError, [Accepted entryA]) \<and> OSError \<noteq> CancelledError \<and>
      cyc_sleep stuck_output_cycle = Wakes"
    by code_simp
  have p: "poll_interval ?w = 60" by code_simp
  note inst = C5_only_cancellation_ends_the_loop [of failing_cycles ?w ?w stuck_output_cycle ?w1
      OSError "[Accepted entryA]" "[]" ?w cancelled_cycle failing_cycles ?w "[]" ClientError]
  from inst failing_cycles_uncancelled c1
  have "slept (snd (snd (run_forever ?w failing_cycles))) = replicate (length failing_cycles) (poll_interval ?w)"
    and "run_forever ?w (cancelled_cycle # failing_cycles) = run_forever ?w [cancelled_cycle]"
    by blast+
  moreover
  from inst k have "run_forever ?w (stuck_output_cycle # []) =
      (fst (run_forever ?w1 []), fst (snd (run_forever ?w1 [])),
       [Accepted entryA] @ [Logged OSError, Slept (poll_interval ?w)] @ snd (snd (run_forever ?w1 [])))"
    by blast
  with p have "run_forever ?w [stuck_output_cycle] =
      (?w1, None, [Accepted entryA, Logged OSError, Slept 60])"
    by simp
  moreover
  from C5_only_cancellation_ends_the_loop [of failing_cycles ?w ?w cancelled_cycle ?w ClientError "[]"
      "[]" ?w interrupted_cycle failing_cycles ?w "[]" ClientError] c2
  have "run_forever ?w (interrupted_cycle # failing_cycles) = run_forever ?w [interrupted_cycle]"
    by blast
  ultimately show ?thesis
    using r e1 e2 l by simp
qed

text \<open>
  C6, as amended. \<^verbatim>\<open>_fetch_if_changed\<close> returns the document alone (or nothing on 304) and
  leaves \<open>seen_keys\<close>, the URL and the interval as they were. The validators it writes
  into the watcher itself: on a response that is neither 304 nor an error status, \<open>etag\<close>
  and \<open>last_modified\<close> become the values of the response headers, each keeping its prior
  value when the header is absent; on 304, on an error status and on a failed request they
  are unchanged. The caller \<^verbatim>\<open>_check_once\<close> persists nothing: the validators after a cycle
  are those the fetch left.
\<close>

theorem C6_fetch_mutates_validators_in_place:
  "(fetch_if_changed st session = (st', r) \<longrightarrow>
      seen_keys st' = seen_keys st \<and> feed_url st' = feed_url st \<and> poll_interval st' = poll_interval st
      \<and> (case session (feed_url st) (request_headers st) of
            Inl e \<Rightarrow> st' = st \<and> r = Inl e
          | Inr resp \<Rightarrow>
              if resp_status resp = 304 then st' = st \<and> r = Inr None
              else if 400 \<le> resp_status resp
                then st' = st \<and> r = Inl (ClientResponseError (resp_status resp))
              else etag st' = (case resp_etag resp of Some v \<Rightarrow> Some v | None \<Rightarrow> etag st)
                \<and> last_modified st' =
                    (case resp_last_modified resp of Some v \<Rightarrow> Some v | None \<Rightarrow> last_modified st)
                \<and> r = (case resp_text resp of Inl e \<Rightarrow> Inl e | Inr body \<Rightarrow> Inr (Some body))))
   \<and> (check_once st session stdout = (st2, r2, evs) \<longrightarrow>
        etag st2 = etag (fst (fetch_if_changed st session))
        \<and> last_modified st2 = last_modified (fst (fetch_if_changed st session)))"
proof (intro conjI impI)
  assume f: "fetch_if_changed st session = (st', r)"
  from fetch_if_changed_frame [OF f]
  show "seen_keys st' = seen_keys st" and "feed_url st' = feed_url st"
    and "poll_interval st' = poll_interval st"
    by simp_all
  from f show "case session (feed_url st) (request_headers st) of
      Inl e \<Rightarrow> st' = st \<and> r = Inl e
    | Inr resp \<Rightarrow>
        if resp_status resp = 304 then st' = st \<and> r = Inr None
        else if 400 \<le> resp_status resp
          then st' = st \<and> r = Inl (ClientResponseError (resp_status resp))
        else etag st' = (case resp_etag resp of Some v \<Rightarrow> Some v | None \<Rightarrow> etag st)
          \<and> last_modified st' =
              (case resp_last_modified resp of Some v \<Rightarrow> Some v | None \<Rightarrow> last_modified st)
          \<and> r = (case resp_text resp of Inl e \<Rightarrow> Inl e | Inr body \<Rightarrow> Inr (Some body))"
    by (auto simp: fetch_if_changed_def Let_def split: sum.splits option.splits)
next
  assume c: "check_once st session stdout = (st2, r2, evs)"
  from check_once_validators [OF c]
  show "etag st2 = etag (fst (fetch_if_changed st session))"
    and "last_modified st2 = last_modified (fst (fetch_if_changed st session))"
    by simp_all
qed

theorem C6_witness:
  "seen_keys (fst (fetch_if_changed ((AtomStatusWatcher FEED_URL 60)\<lparr>seen_keys := {''1|t1''}\<rparr>)
       (replying fresh_response))) = {''1|t1''}
   \<and> etag (fst (check_once ((AtomStatusWatcher FEED_URL 60)\<lparr>seen_keys := {''1|t1''}\<rparr>)
       (replying fresh_response) terminal)) = Some ''W/\"abc\"''
   \<and> last_modified (fst (check_once ((AtomStatusWatcher FEED_URL 60)\<lparr>seen_keys := {''1|t1''}\<rparr>)
       (replying fresh_response) terminal)) = Some ''Tue, 02 Jan 2024 00:00:00 GMT''"
proof -
  let ?st = "(AtomStatusWatcher FEED_URL 60)\<lparr>seen_keys := {''1|t1''}\<rparr>"
  let ?f = "fetch_if_changed ?st (replying fresh_response)"
  let ?c = "check_once ?st (replying fresh_response) terminal"
  have f: "?f = (fst ?f, snd ?f)" and c: "?c = (fst ?c, fst (snd ?c), snd (snd ?c))"
    by simp_all
  have e: "etag (fst ?f) = Some ''W/\"abc\"''
      \<and> last_modified (fst ?f) = Some ''Tue, 02 Jan 2024 00:00:00 GMT''
      \<and> seen_keys ?st = {''1|t1''}"
    by code_simp
  from C6_fetch_mutates_validators_in_place [of ?st "replying fresh_response" "fst ?f" "snd ?f"
      terminal "fst ?c" "fst (snd ?c)" "snd (snd ?c)"] f c
  have "seen_keys (fst ?f) = seen_keys ?st" and "etag (fst ?c) = etag (fst ?f)"
    and "last_modified (fst ?c) = last_modified (fst ?f)"
    by blast+
  with e show ?thesis by simp
qed

text \<open>
  C6 as stated fails: on a response carrying both validator headers the fetch changes the
  watcher it was given, and returns the document only.
\<close>

theorem C6_counterexample:
  "fetch_if_changed (AtomStatusWatcher FEED_URL 60) (replying fresh_response) =
     ((AtomStatusWatcher FEED_URL 60)
        \<lparr>etag := Some ''W/\"abc\"'', last_modified := Some ''Tue, 02 Jan 2024 00:00:00 GMT''\<rparr>,
      Inr (Some (Feed [])))
   \<and> fst (fetch_if_changed (AtomStatusWatcher FEED_URL 60) (replying fresh_response))
       \<noteq> AtomStatusWatcher FEED_URL 60
   \<and> etag (AtomStatusWatcher FEED_URL 60) = None
   \<and> etag (fst (fetch_if_changed (AtomStatusWatcher FEED_URL 60) (replying fresh_response)))
       = Some ''W/\"abc\"''"
  by code_simp

text \<open>
  C7. When the server answers the conditional request with status 304, the fetch returns
  no document and the cycle ends with the watcher exactly as it was: \<open>seen_keys\<close>, \<open>etag\<close>
  and \<open>last_modified\<close> are unchanged, nothing is printed, and the loop sleeps and goes on.
\<close>

theorem C7_not_modified_changes_nothing:
  "session (feed_url st) (request_headers st) = Inr resp \<and> resp_status resp = 304 \<longrightarrow>
     fetch_if_changed st session = (st, Inr None)
     \<and> check_once st session stdout = (st, Inr False, [])
     \<and> seen_keys (fst (check_once st session stdout)) = seen_keys st
     \<and> etag (fst (check_once st session stdout)) = etag st
     \<and> last_modified (fst (check_once st session stdout)) = last_modified st
     \<and> run_forever st [\<lparr>cyc_session = session, cyc_stdout = stdout, cyc_sleep = Wakes\<rparr>]
         = (st, None, [Slept (poll_interval st)])"
proof
  assume h: "session (feed_url st) (request_headers st) = Inr resp \<and> resp_status resp = 304"
  then have f: "fetch_if_changed st session = (st, Inr None)"
    by (simp add: fetch_if_changed_def)
  then have c: "check_once st session stdout = (st, Inr False, [])"
    by (simp add: check_once_def)
  then have "run_forever st [\<lparr>cyc_session = session, cyc_stdout = stdout, cyc_sleep = Wakes\<rparr>]
      = (st, None, [Slept (poll_interval st)])"
    by (simp add: run_forever.simps)
  with f c show "fetch_if_changed st session = (st, Inr None)
     \<and> check_once st session stdout = (st, Inr False, [])
     \<and> seen_keys (fst (check_once st session stdout)) = seen_keys st
     \<and> etag (fst (check_once st session stdout)) = etag st
     \<and> last_modified (fst (check_once st session stdout)) = last_modified st
     \<and> run_forever st [\<lparr>cyc_session = session, cyc_stdout = stdout, cyc_sleep = Wakes\<rparr>]
         = (st, None, [Slept (poll_interval st)])"
    by simp
qed

theorem C7_witness:
  "replying not_modified_response (feed_url polled_watcher) (request_headers polled_watcher)
     = Inr not_modified_response
   \<and> resp_status not_modified_response = 304
   \<and> request_headers polled_watcher =
       [(''If-None-Match'', ''W/\"abc\"''), (''If-Modified-Since'', ''Tue, 02 Jan 2024 00:00:00 GMT'')]
   \<and> check_once polled_watcher (replying not_modified_response) closed_pipe =
       (polled_watcher, Inr False, [])"
proof -
  have h: "replying not_modified_response (feed_url polled_watcher) (request_headers polled_watcher)
      = Inr not_modified_response \<and> resp_status not_modified_response = 304"
    by code_simp
  have r: "request_headers polled_watcher =
      [(''If-None-Match'', ''W/\"abc\"''), (''If-Modified-Since'', ''Tue, 02 Jan 2024 00:00:00 GMT'')]"
    by code_simp
  from C7_not_modified_changes_nothing [of "replying not_modified_response" polled_watcher
      not_modified_response closed_pipe] h r
  show ?thesis by blast
qed

text \<open>
  C8. For an entry with a non-empty id and a non-empty timestamp the identity key is the
  id, the separator \<^verbatim>\<open>|\<close> and the timestamp. Two entries with the same id and different
  timestamps have different keys, so when the feed shows the first in one cycle and the
  second in the next (and neither key was seen before), each is found new in its cycle:
  its key is added and it is handed to the classifier and the print again, the cycle
  returning \<open>True\<close> with the notification of the entry, or raising what the print raised.
\<close>

theorem C8_edited_entry_is_new:
  "(entry_id e \<noteq> [] \<and> updated e \<noteq> [] \<longrightarrow> entry_key e = entry_id e @ ''|'' @ updated e)
   \<and> (entry_id e1 \<noteq> [] \<and> entry_id e2 = entry_id e1 \<and> updated e1 \<noteq> [] \<and> updated e2 \<noteq> [] \<and>
      updated e2 \<noteq> updated e1 \<and> entry_key e1 \<notin> seen_keys st \<and> entry_key e2 \<notin> seen_keys st \<longrightarrow>
        entry_key e2 \<noteq> entry_key e1
        \<and> check_once st (replying (ok_response [e1])) stdout1 =
            (case notify stdout1 e1 of
               Inr shown \<Rightarrow>
                 (st\<lparr>seen_keys := insert (entry_key e1) (seen_keys st)\<rparr>, Inr True,
                  Accepted e1 # shown)
             | Inl x \<Rightarrow>
                 (st\<lparr>seen_keys := insert (entry_key e1) (seen_keys st)\<rparr>, Inl x, [Accepted e1]))
        \<and> check_once (st\<lparr>seen_keys := insert (entry_key e1) (seen_keys st)\<rparr>)
              (replying (ok_response [e2])) stdout2 =
            (case notify stdout2 e2 of
               Inr shown \<Rightarrow>
                 (st\<lparr>seen_keys := insert (entry_key e2) (insert (entry_key e1) (seen_keys st))\<rparr>,
                  Inr True, Accepted e2 # shown)
             | Inl x \<Rightarrow>
                 (st\<lparr>seen_keys := insert (entry_key e2) (insert (entry_key e1) (seen_keys st))\<rparr>,
                  Inl x, [Accepted e2]))
        \<and> accepted (snd (snd (check_once st (replying (ok_response [e1])) stdout1))) = [e1]
        \<and> accepted (snd (snd (check_once (st\<lparr>seen_keys := insert (entry_key e1) (seen_keys st)\<rparr>)
              (replying (ok_response [e2])) stdout2))) = [e2])"
proof (intro conjI impI)
  assume "entry_id e \<noteq> [] \<and> updated e \<noteq> []"
  then show "entry_key e = entry_id e @ ''|'' @ updated e"
    by (simp add: entry_key_def)
next
  assume h: "entry_id e1 \<noteq> [] \<and> entry_id e2 = entry_id e1 \<and> updated e1 \<noteq> [] \<and> updated e2 \<noteq> [] \<and>
      updated e2 \<noteq> updated e1 \<and> entry_key e1 \<notin> seen_keys st \<and> entry_key e2 \<notin> seen_keys st"
  then show ne: "entry_key e2 \<noteq> entry_key e1"
    by (simp add: entry_key_def)
  from h have n1: "entry_key e1 \<notin> seen_keys st" by simp
  from h ne have n2: "entry_key e2 \<notin> seen_keys (st\<lparr>seen_keys := insert (entry_key e1) (seen_keys st)\<rparr>)"
    by simp
  show "check_once st (replying (ok_response [e1])) stdout1 =
      (case notify stdout1 e1 of
         Inr shown \<Rightarrow>
           (st\<lparr>seen_keys := insert (entry_key e1) (seen_keys st)\<rparr>, Inr True,
            Accepted e1 # shown)
       | Inl x \<Rightarrow>
           (st\<lparr>seen_keys := insert (entry_key e1) (seen_keys st)\<rparr>, Inl x, [Accepted e1]))"
    by (rule check_once_single_new [OF n1])
  from check_once_single_new [OF n2, of stdout2]
  show "check_once (st\<lparr>seen_keys := insert (entry_key e1) (seen_keys st)\<rparr>)
        (replying (ok_response [e2])) stdout2 =
      (case notify stdout2 e2 of
         Inr shown \<Rightarrow>
           (st\<lparr>seen_keys := insert (entry_key e2) (insert (entry_key e1) (seen_keys st))\<rparr>,
            Inr True, Accepted e2 # shown)
       | Inl x \<Rightarrow>
           (st\<lparr>seen_keys := insert (entry_key e2) (insert (entry_key e1) (seen_keys st))\<rparr>,
            Inl x, [Accepted e2]))"
    by (cases "notify stdout2 e2") simp_all
  show "accepted (snd (snd (check_once st (replying (ok_response [e1])) stdout1))) = [e1]"
    by (rule accepted_single_new(1) [OF n1])
  show "accepted (snd (snd (check_once (st\<lparr>seen_keys := insert (entry_key e1) (seen_keys st)\<rparr>)
        (replying (ok_response [e2])) stdout2))) = [e2]"
    by (rule accepted_single_new(1) [OF n2])
qed

theorem C8_witness:
  "entry_key incident_v1 = ''tag:42|2024-01-01T10:00''
   \<and> entry_key incident_v2 = ''tag:42|2024-01-01T11:00''
   \<and> snd (snd (check_once (AtomStatusWatcher FEED_URL 60) (replying (ok_response [incident_v1]))
        terminal))
       = [Accepted incident_v1, Printed ''OpenAI API - Embeddings'' ''investigating'']
   \<and> snd (snd (check_once
         (fst (check_once (AtomStatusWatcher FEED_URL 60) (replying (ok_response [incident_v1]))
            terminal))
         (replying (ok_response [incident_v2])) terminal))
       = [Accepted incident_v2, Printed ''OpenAI API - Embeddings'' ''resolved'']
   \<and> accepted (snd (snd (check_once
         (fst (check_once (AtomStatusWatcher FEED_URL 60) (replying (ok_response [incident_v1]))
            closed_pipe))
         (replying (ok_response [incident_v2])) closed_pipe))) = [incident_v2]"
proof -
  let ?w = "AtomStatusWatcher FEED_URL 60"
  have h: "entry_id incident_v1 \<noteq> [] \<and> entry_id incident_v2 = entry_id incident_v1 \<and>
      updated incident_v1 \<noteq> [] \<and> updated incident_v2 \<noteq> [] \<and>
      updated incident_v2 \<noteq> updated incident_v1 \<and>
      entry_key incident_v1 \<notin> seen_keys ?w \<and> entry_key incident_v2 \<notin> seen_keys ?w"
    by code_simp
  have k: "entry_key incident_v1 = ''tag:42|2024-01-01T10:00''
      \<and> entry_key incident_v2 = ''tag:42|2024-01-01T11:00''"
    by code_simp
  have ev: "notify terminal incident_v1 = Inr [Printed ''OpenAI API - Embeddings'' ''investigating'']
      \<and> notify terminal incident_v2 = Inr [Printed ''OpenAI API - Embeddings'' ''resolved'']"
    by code_simp
  from C8_edited_entry_is_new [of incident_v1 incident_v1 incident_v2 ?w terminal terminal] h
  have "check_once ?w (replying (ok_response [incident_v1])) terminal =
      (case notify terminal incident_v1 of
         Inr shown \<Rightarrow>
           (?w\<lparr>seen_keys := insert (entry_key incident_v1) (seen_keys ?w)\<rparr>, Inr True,
            Accepted incident_v1 # shown)
       | Inl x \<Rightarrow>
           (?w\<lparr>seen_keys := insert (entry_key incident_v1) (seen_keys ?w)\<rparr>, Inl x,
            [Accepted incident_v1]))"
    and "check_once (?w\<lparr>seen_keys := insert (entry_key incident_v1) (seen_keys ?w)\<rparr>)
        (replying (ok_response [incident_v2])) terminal =
      (case notify terminal incident_v2 of
         Inr shown \<Rightarrow>
           (?w\<lparr>seen_keys := insert (entry_key incident_v2)
               (insert (entry_key incident_v1) (seen_keys ?w))\<rparr>,
            Inr True, Accepted incident_v2 # shown)
       | Inl x \<Rightarrow>
           (?w\<lparr>seen_keys := insert (entry_key incident_v2)
               (insert (entry_key incident_v1) (seen_keys ?w))\<rparr>,
            Inl x, [Accepted incident_v2]))"
    by blast+
  with k ev have 1: "snd (snd (check_once ?w (replying (ok_response [incident_v1])) terminal))
       = [Accepted incident_v1, Printed ''OpenAI API - Embeddings'' ''investigating'']
   \<and> snd (snd (check_once (fst (check_once ?w (replying (ok_response [incident_v1])) terminal))
         (replying (ok_response [incident_v2])) terminal))
       = [Accepted incident_v2, Printed ''OpenAI API - Embeddings'' ''resolved'']"
    by simp
  from h have n1: "entry_key incident_v1 \<notin> seen_keys ?w" by simp
  from C8_edited_entry_is_new [of incident_v1 incident_v1 incident_v2 ?w closed_pipe closed_pipe] h
  have "accepted (snd (snd (check_once
        (?w\<lparr>seen_keys := insert (entry_key incident_v1) (seen_keys ?w)\<rparr>)
        (replying (ok_response [incident_v2])) closed_pipe))) = [incident_v2]"
    by blast
  with accepted_single_new(2) [OF n1, of closed_pipe]
  have 2: "accepted (snd (snd (check_once
         (fst (check_once ?w (replying (ok_response [incident_v1])) closed_pipe))
         (replying (ok_response [incident_v2])) closed_pipe))) = [incident_v2]"
    by simp
  from k 1 2 show ?thesis by simp
qed

text \<open>
  C9. The text normalizer is idempotent: normalizing a normalized text changes nothing,
  for every input text; and on the input \<^verbatim>\<open><b>Hi</b>&nbsp;there\<close> it returns
  \<^verbatim>\<open>Hi there\<close>.
\<close>

theorem C9_strip_html_idempotent:
  "strip_html (strip_html x) = strip_html x
   \<and> strip_html ''<b>Hi</b>&nbsp;there'' = ''Hi there''"
proof
  show "strip_html (strip_html x) = strip_html x"
    by (rule strip_html_idem)
next
  show "strip_html ''<b>Hi</b>&nbsp;there'' = ''Hi there''"
    by code_simp
qed

theorem C9_strip_html_idempotent_witness:
  "strip_html (strip_html ''a <i>b</i>&nbsp;  c<br/>'') = strip_html ''a <i>b</i>&nbsp;  c<br/>''
   \<and> strip_html ''a <i>b</i>&nbsp;  c<br/>'' = ''a b c''"
proof
  show "strip_html (strip_html ''a <i>b</i>&nbsp;  c<br/>'') = strip_html ''a <i>b</i>&nbsp;  c<br/>''"
    using C9_strip_html_idempotent [of "''a <i>b</i>&nbsp;  c<br/>''"] by (rule conjunct1)
next
  show "strip_html ''a <i>b</i>&nbsp;  c<br/>'' = ''a b c''"
    by code_simp
qed




end
